theory Spec2Isabelle
  imports Main "HOL-Library.Word"
begin

unbundle bit_operations_syntax

section \<open>Strings and time-of-day text\<close>

text \<open>
  A JavaScript string is a sequence of UTF-16 code units; \<open>charCodeAt\<close> and the
  regular expression engine both work on code units, so the functions that look
  inside a string take a list of 16-bit words.
\<close>

type_synonym utf16 = "16 word list"

text \<open>The regular expression class \<open>\d\<close> is exactly the ten ASCII digits.\<close>

definition is_digit :: "16 word \<Rightarrow> bool" where
  "is_digit c = (48 \<le> c \<and> c \<le> 57)"

text \<open>
  \<open>/^(\d{2}):(\d{2})$/.exec(value)\<close>: the pattern is anchored at both ends and has no
  flags, so it matches exactly the strings of five code units
  digit, digit, colon, digit, digit; the result is the two captured groups.
\<close>

fun exec_hhmm :: "utf16 \<Rightarrow> (utf16 \<times> utf16) option" where
  "exec_hhmm [a, b, c, d, e] =
     (if is_digit a \<and> is_digit b \<and> c = 58 \<and> is_digit d \<and> is_digit e
      then Some ([a, b], [d, e]) else None)"
| "exec_hhmm _ = None"

text \<open>\<open>Number(text)\<close> on a string of decimal digits: its decimal value.\<close>

definition Number_of_digits :: "utf16 \<Rightarrow> int" where
  "Number_of_digits ds = foldl (\<lambda>n c. 10 * n + (uint c - 48)) 0 ds"

definition fromTimeStringHHMM :: "utf16 \<Rightarrow> int" where
  "fromTimeStringHHMM v =
     (case exec_hhmm v of
        None \<Rightarrow> 0
      | Some (g1, g2) \<Rightarrow>
          (let hh = max 0 (min 23 (Number_of_digits g1));
               mm = max 0 (min 59 (Number_of_digits g2))
           in hh * 3600 + mm * 60))"

text \<open>
  The pattern \<open>\d{2}:\d{2}\<close> as the specification words it, stated on the positions
  of the string rather than by running the matcher.
\<close>

definition matches_hhmm :: "utf16 \<Rightarrow> bool" where
  "matches_hhmm v =
     (length v = 5 \<and> is_digit (v ! 0) \<and> is_digit (v ! 1) \<and> v ! 2 = 58 \<and>
      is_digit (v ! 3) \<and> is_digit (v ! 4))"

text \<open>The value of one digit code unit.\<close>

definition digit_value :: "16 word \<Rightarrow> int" where
  "digit_value c = uint c - 48"

section \<open>JSON values\<close>

text \<open>
  The values that \<open>JSON.parse\<close> produces and \<open>JSON.stringify\<close> accepts. An object
  is the list of its own properties in enumeration order. Numbers are restricted to
  the integers: the program itself only ever writes seconds and calendar fields.
\<close>

datatype json =
    JNull
  | JBool bool
  | JNum int
  | JStr string
  | JArr "json list"
  | JObj "(string \<times> json) list"

text \<open>
  Reading a named property with optional chaining, \<open>v?.k\<close>, for the keys the program
  reads (\<open>name\<close>, \<open>date\<close>, \<open>timeslots\<close>): \<open>None\<close> is \<open>undefined\<close>. Only an object
  can own such a property.
\<close>

definition get_prop :: "json \<Rightarrow> string \<Rightarrow> json option" where
  "get_prop v k = (case v of JObj fs \<Rightarrow> map_of fs k | _ \<Rightarrow> None)"

text \<open>\<open>!v\<close>: the falsy values among the values above.\<close>

fun falsy :: "json \<Rightarrow> bool" where
  "falsy JNull = True"
| "falsy (JBool b) = (\<not> b)"
| "falsy (JNum n) = (n = 0)"
| "falsy (JStr s) = (s = [])"
| "falsy _ = False"

text \<open>\<open>typeof v === "string"\<close> on a possibly undefined value.\<close>

definition is_string :: "json option \<Rightarrow> bool" where
  "is_string v = (case v of Some (JStr s) \<Rightarrow> True | _ \<Rightarrow> False)"

section \<open>Timeslots and the object store\<close>

text \<open>
  \<open>TimeslotRange\<close>. The bounds are whole seconds. The \<open>meta\<close> field is kept as a
  JSON value, because \<open>addRangeNoOverlap\<close> checks its shape at run time.
\<close>

record timeslot =
  start :: int
  end' :: int
  meta :: json

text \<open>
  A JavaScript array of timeslots holds references to objects, and
  \<open>addRangeNoOverlap\<close> assigns to a field of such an object, so objects live in an
  explicit store: a reference is an index into the store, \<open>new\<close> appends to it. The
  arrays themselves are values: the input array is never written to, only its copy.
\<close>

type_synonym ref = nat
type_synonym heap = "timeslot list"

text \<open>The timeslots an array of references denotes in a store.\<close>

definition vals :: "heap \<Rightarrow> ref list \<Rightarrow> timeslot list" where
  "vals h list = map (\<lambda>r. h ! r) list"

datatype error =
    TypeError_meta
  | Error_overlap_previous
  | Error_overlap_next

definition normalizeRange :: "int \<Rightarrow> int \<Rightarrow> int \<times> int" where
  "normalizeRange start0 end0 =
     (let (s, e) = (if start0 > end0 then (end0, start0) else (start0, end0));
          s = max 0 (min 86399 s);
          e = max 0 (min 86399 e)
      in (s, e))"

text \<open>
  The binary search loop of \<open>addRangeNoOverlap\<close>, with \<open>f i\<close> standing for
  \<open>list[i].start\<close>. The midpoint \<open>(lo + hi) >> 1\<close> is a 32-bit shift in the source; it
  is the halving written here for every array of fewer than \<open>2 ^ 30\<close> entries.
\<close>

function insert_pos :: "(nat \<Rightarrow> int) \<Rightarrow> int \<Rightarrow> nat \<Rightarrow> nat \<Rightarrow> nat" where
  "insert_pos f s lo hi =
     (if lo < hi
      then (if f ((lo + hi) div 2) \<le> s
            then insert_pos f s ((lo + hi) div 2 + 1) hi
            else insert_pos f s lo ((lo + hi) div 2))
      else lo)"
  by pat_completeness auto
termination
  by (relation "measure (\<lambda>(f, s, lo, hi). hi - lo)") auto

declare insert_pos.simps [simp del]

text \<open>\<open>a.meta?.name\<close> for the object behind a reference.\<close>

definition name_of :: "heap \<Rightarrow> ref \<Rightarrow> json option" where
  "name_of h r = get_prop (meta (h ! r)) ''name''"

text \<open>
  The merge test \<open>a.end + 1 === b.start && a.meta?.name === b.meta?.name\<close>. On every
  path one of the two names is the name of the range being added, which has been
  checked to be a string, so strict equality is equality of values.
\<close>

definition contiguous_same_name :: "heap \<Rightarrow> ref \<Rightarrow> ref \<Rightarrow> bool" where
  "contiguous_same_name h a b =
     (end' (h ! a) + 1 = start (h ! b) \<and> name_of h a = name_of h b)"

text \<open>The assignment \<open>a.end = b.end\<close>: it writes to the object \<open>a\<close> refers to.\<close>

definition set_end :: "heap \<Rightarrow> ref \<Rightarrow> ref \<Rightarrow> heap" where
  "set_end h a b = h[a := (h ! a)\<lparr>end' := end' (h ! b)\<rparr>]"

text \<open>\<open>xs.splice(i, 0, x)\<close> and \<open>xs.splice(i, 1)\<close> for an index within the array.\<close>

definition splice_insert :: "nat \<Rightarrow> 'a \<Rightarrow> 'a list \<Rightarrow> 'a list" where
  "splice_insert i x xs = take i xs @ x # drop i xs"

definition splice_remove :: "nat \<Rightarrow> 'a list \<Rightarrow> 'a list" where
  "splice_remove i xs = take i xs @ drop (Suc i) xs"

text \<open>The block "merge left if contiguous and same meta.name"; it may move \<open>pos\<close>.\<close>

definition mergeLeft :: "heap \<times> ref list \<times> nat \<Rightarrow> heap \<times> ref list \<times> nat" where
  "mergeLeft = (\<lambda>(h, next, pos).
     if pos > 0
     then (let a = next ! (pos - 1); b = next ! pos
           in if contiguous_same_name h a b
              then (set_end h a b, splice_remove pos next, pos - 1)
              else (h, next, pos))
     else (h, next, pos))"

text \<open>The block "merge right if contiguous and same meta.name".\<close>

definition mergeRight :: "heap \<times> ref list \<times> nat \<Rightarrow> heap \<times> ref list" where
  "mergeRight = (\<lambda>(h, next, pos).
     if int pos < int (length next) - 1
     then (let a = next ! pos; b = next ! (pos + 1)
           in if contiguous_same_name h a b
              then (set_end h a b, splice_remove (pos + 1) next)
              else (h, next))
     else (h, next))"

text \<open>
  \<open>addRangeNoOverlap\<close>. The result is the store after the call together with either
  the error raised or the array returned. The three \<open>throw\<close> statements come before
  any write, so the raising branches hand back the store they were given.
\<close>

definition addRangeNoOverlap ::
  "heap \<Rightarrow> ref list \<Rightarrow> int \<Rightarrow> int \<Rightarrow> json \<Rightarrow> heap \<times> (error + ref list)" where
  "addRangeNoOverlap h list start0 end0 m =
     (if falsy m \<or> \<not> is_string (get_prop m ''name'') then (h, Inl TypeError_meta)
      else
        (let (s, e) = normalizeRange start0 end0;
             pos = insert_pos (\<lambda>i. start (h ! (list ! i))) s 0 (length list)
         in if pos > 0 \<and> end' (h ! (list ! (pos - 1))) \<ge> s
            then (h, Inl Error_overlap_previous)
            else if pos < length list \<and> start (h ! (list ! pos)) \<le> e
            then (h, Inl Error_overlap_next)
            else
              (let r = length h;
                   h1 = h @ [\<lparr>start = s, end' = e, meta = m\<rparr>];
                   next = splice_insert pos r list;
                   (h3, next3) = mergeRight (mergeLeft (h1, next, pos))
               in (h3, Inr next3))))"

subsection \<open>The invariant of a timeslot list\<close>

text \<open>
  Sorted ascending by \<open>start\<close>, and each entry ends before the entry after it starts.
\<close>

definition slots_inv :: "timeslot list \<Rightarrow> bool" where
  "slots_inv vs =
     (sorted (map start vs) \<and> successively (\<lambda>a b. end' a < start b) vs)"

text \<open>
  An array of references is a timeslot list of a store when its references are
  allocated, no object occurs in it twice, and the timeslots it denotes satisfy the
  invariant.
\<close>

definition store_inv :: "heap \<Rightarrow> ref list \<Rightarrow> bool" where
  "store_inv h list =
     (list_all (\<lambda>r. r < length h) list \<and> distinct list \<and> slots_inv (vals h list))"

text \<open>A \<open>TimeRange\<close> has its start no later than its end.\<close>

definition wf_slot :: "timeslot \<Rightarrow> bool" where
  "wf_slot a = (start a \<le> end' a)"

text \<open>The inclusive ranges \<open>[s, e]\<close> and \<open>[a.start, a.end]\<close> have a second in common.\<close>

definition intersects :: "int \<Rightarrow> int \<Rightarrow> timeslot \<Rightarrow> bool" where
  "intersects s e a = (start a \<le> e \<and> s \<le> end' a)"

text \<open>The two errors that report an overlap.\<close>

definition is_overlap_error :: "error + ref list \<Rightarrow> bool" where
  "is_overlap_error res =
     (res = Inl Error_overlap_previous \<or> res = Inl Error_overlap_next)"

text \<open>The check on \<open>meta\<close> at the head of \<open>addRangeNoOverlap\<close> passes.\<close>

definition valid_meta :: "json \<Rightarrow> bool" where
  "valid_meta m = (\<not> falsy m \<and> is_string (get_prop m ''name''))"

text \<open>
  What the search and the two overlap tests establish about the insertion position:
  the entries before it start no later than \<open>s\<close> and the last of them ends before
  \<open>s\<close>; the entries from it on start after \<open>s\<close> and the first of them after \<open>e\<close>.
\<close>

definition fits_at :: "timeslot list \<Rightarrow> nat \<Rightarrow> int \<Rightarrow> int \<Rightarrow> bool" where
  "fits_at vs pos s e =
     (pos \<le> length vs \<and>
      (\<forall>x\<in>set (take pos vs). start x \<le> s) \<and> (\<forall>y\<in>set (drop pos vs). s < start y) \<and>
      (0 < pos \<longrightarrow> end' (vs ! (pos - 1)) < s) \<and> (pos < length vs \<longrightarrow> e < start (vs ! pos)))"

subsection \<open>The insertion read on timeslot values\<close>

text \<open>
  The same steps on the list of timeslots an array denotes. On an array that holds
  no object twice the store-level function computes exactly this (lemma
  \<open>addRangeNoOverlap_success\<close> below).
\<close>

definition touching :: "timeslot \<Rightarrow> timeslot \<Rightarrow> bool" where
  "touching a b =
     (end' a + 1 = start b \<and> get_prop (meta a) ''name'' = get_prop (meta b) ''name'')"

definition absorb_at :: "nat \<Rightarrow> timeslot list \<Rightarrow> timeslot list" where
  "absorb_at i vs = take i vs @ (vs ! i)\<lparr>end' := end' (vs ! Suc i)\<rparr> # drop (Suc (Suc i)) vs"

definition merge_left_vals :: "timeslot list \<times> nat \<Rightarrow> timeslot list \<times> nat" where
  "merge_left_vals = (\<lambda>(vs, pos).
     if pos > 0 \<and> touching (vs ! (pos - 1)) (vs ! pos)
     then (absorb_at (pos - 1) vs, pos - 1) else (vs, pos))"

definition merge_right_vals :: "timeslot list \<times> nat \<Rightarrow> timeslot list" where
  "merge_right_vals = (\<lambda>(vs, pos).
     if Suc pos < length vs \<and> touching (vs ! pos) (vs ! Suc pos)
     then absorb_at pos vs else vs)"

definition insert_vals :: "timeslot list \<Rightarrow> nat \<Rightarrow> int \<Rightarrow> int \<Rightarrow> json \<Rightarrow> timeslot list" where
  "insert_vals vs pos s e m =
     merge_right_vals
       (merge_left_vals (take pos vs @ \<lparr>start = s, end' = e, meta = m\<rparr> # drop pos vs, pos))"

text \<open>The outcome of a call as the caller sees it: the error, or the returned array
  read in the store after the call.\<close>

definition returned :: "heap \<times> (error + ref list) \<Rightarrow> error + timeslot list" where
  "returned r = (case snd r of Inl err \<Rightarrow> Inl err | Inr list \<Rightarrow> Inr (vals (fst r) list))"

text \<open>The object literal \<open>{ name }\<close> that \<open>createFromPickers\<close> passes as \<open>meta\<close>.\<close>

definition named :: "string \<Rightarrow> json" where
  "named n = JObj [(''name'', JStr n)]"

section \<open>Colour of a timeslot\<close>

text \<open>
  JavaScript's bitwise operators first bring a number into the signed 32-bit range
  (\<open>ToInt32\<close>); \<open>+\<close> is exact on the integers that occur here.
\<close>

definition ToInt32 :: "int \<Rightarrow> int" where
  "ToInt32 x = (x + 2 ^ 31) mod 2 ^ 32 - 2 ^ 31"

text \<open>\<open>x << n\<close> for a shift count below 32.\<close>

definition js_shl :: "int \<Rightarrow> nat \<Rightarrow> int" where
  "js_shl x n = ToInt32 (ToInt32 x * 2 ^ n)"

text \<open>\<open>x ^ y\<close>.\<close>

definition js_xor :: "int \<Rightarrow> int \<Rightarrow> int" where
  "js_xor x y = ToInt32 x XOR ToInt32 y"

text \<open>The loop body \<open>h = ((h << 5) + h) ^ name.charCodeAt(i)\<close>.\<close>

definition hash_step :: "int \<Rightarrow> 16 word \<Rightarrow> int" where
  "hash_step h c = js_xor (js_shl h 5 + h) (uint c)"

text \<open>The loop over the code units of \<open>name\<close>, starting from 5381.\<close>

definition name_hash :: "utf16 \<Rightarrow> int" where
  "name_hash name = foldl hash_step 5381 name"

text \<open>
  \<open>colorFromName\<close> returns the text \<open>hsla(hue, saturation%, lightness%, alpha)\<close>; the
  record holds the four values interpolated into it, \<open>alpha\<close> as the decimal text of
  its literal. An omitted \<open>isRunning\<close> is \<open>undefined\<close>, which selects like \<open>False\<close>.
\<close>

record color =
  hue :: int
  saturation :: int
  lightness :: int
  alpha :: string

definition colorFromName :: "utf16 \<Rightarrow> bool \<Rightarrow> bool \<Rightarrow> color" where
  "colorFromName name isPast isRunning =
     \<lparr>hue = \<bar>name_hash name\<bar> mod 360,
      saturation = (if isRunning then 5 else if isPast then 15 else 70),
      lightness = (if isRunning then 30 else if isPast then 25 else 55),
      alpha = (if isRunning then ''0.8'' else if isPast then ''0.35'' else ''0.7'')\<rparr>"

text \<open>
  The hash as the specification words it: a rolling hash on 32-bit machine words,
  \<open>h = ((h << 5) + h) XOR code\<close>, seeded at 5381.
\<close>

definition djb2 :: "utf16 \<Rightarrow> 32 word" where
  "djb2 name = foldl (\<lambda>h c. (push_bit 5 h + h) XOR ucast c) 5381 name"

section \<open>The store of the day\<close>

text \<open>\<open>now: Date\<close>, of which only the three calendar getters are read.\<close>

record js_date =
  getDate :: int
  getMonth :: int
  getFullYear :: int

definition getTodayArray :: "js_date \<Rightarrow> int \<times> int \<times> int" where
  "getTodayArray now = (getDate now, getMonth now, getFullYear now)"

text \<open>The triple as the array it is once it is a property of a store.\<close>

definition date_json :: "int \<times> int \<times> int \<Rightarrow> json" where
  "date_json = (\<lambda>(d, m, y). JArr [JNum d, JNum m, JNum y])"

text \<open>
  \<open>isSameDate\<close>: the first argument is \<open>unknown\<close> (\<open>None\<close> is \<open>undefined\<close>); \<open>===\<close>
  against a number holds of that number only.
\<close>

definition isSameDate :: "json option \<Rightarrow> int \<times> int \<times> int \<Rightarrow> bool" where
  "isSameDate a = (\<lambda>(b0, b1, b2).
     case a of
       Some (JArr [a0, a1, a2]) \<Rightarrow> a0 = JNum b0 \<and> a1 = JNum b1 \<and> a2 = JNum b2
     | _ \<Rightarrow> False)"

text \<open>\<open>TimeslotsStore\<close>: an object, given by its properties.\<close>

type_synonym store = "(string \<times> json) list"

definition makeDefaultTimeslots :: "js_date \<Rightarrow> store" where
  "makeDefaultTimeslots now =
     [(''date'', date_json (getTodayArray now)), (''timeslots'', JArr [])]"

text \<open>
  Defining a property in an object literal after a spread: an existing key keeps its
  place and takes the new value, a new key goes last.
\<close>

fun set_prop :: "string \<Rightarrow> json \<Rightarrow> store \<Rightarrow> store" where
  "set_prop k v [] = [(k, v)]"
| "set_prop k v ((k', v') # ps) =
     (if k' = k then (k, v) # ps else (k', v') # set_prop k v ps)"

text \<open>
  The properties \<open>{...parsed}\<close> copies. Where \<open>readStoreForToday\<close> spreads, \<open>parsed\<close>
  has passed the date test, so it is an object.
\<close>

definition own_props :: "json \<Rightarrow> store" where
  "own_props v = (case v of JObj fs \<Rightarrow> fs | _ \<Rightarrow> [])"

text \<open>
  \<open>readStoreForToday\<close>. \<open>JSON.parse\<close> and the contents of \<open>localStorage\<close> are
  parameters: \<open>parse raw = None\<close> stands for \<open>JSON.parse\<close> raising, which the
  \<open>catch\<close> turns into a reset.
\<close>

definition readStoreForToday ::
  "(string \<Rightarrow> json option) \<Rightarrow> (string \<rightharpoonup> string) \<Rightarrow> js_date \<Rightarrow> store" where
  "readStoreForToday parse ls now =
     (let today = getTodayArray now in
      case ls ''timeslots'' of
        None \<Rightarrow> makeDefaultTimeslots now
      | Some raw \<Rightarrow>
          if raw = [] then makeDefaultTimeslots now
          else
            (case parse raw of
               None \<Rightarrow> makeDefaultTimeslots now
             | Some parsed \<Rightarrow>
                 if \<not> isSameDate (get_prop parsed ''date'') today
                 then makeDefaultTimeslots now
                 else
                   (let timeslots =
                          (case get_prop parsed ''timeslots'' of
                             Some (JArr ts) \<Rightarrow> JArr ts
                           | _ \<Rightarrow> JArr [])
                    in set_prop ''timeslots'' timeslots
                         (set_prop ''date'' (date_json today) (own_props parsed)))))"

text \<open>
  What \<open>writeStore\<close> writes to: \<open>localStorage\<close> and the two pieces of component state
  behind the setters it is handed.
\<close>

record app =
  localStorage :: "string \<rightharpoonup> string"
  timeslotsDebug :: string
  timeslots :: json

text \<open>\<open>writeStore\<close>, with \<open>JSON.stringify\<close> as a parameter.\<close>

definition writeStore :: "(json \<Rightarrow> string) \<Rightarrow> store \<Rightarrow> app \<Rightarrow> app" where
  "writeStore stringify store st =
     (let raw = stringify (JObj store)
      in st\<lparr>localStorage := (localStorage st)(''timeslots'' \<mapsto> raw),
            timeslotsDebug := raw,
            timeslots := (case map_of store ''timeslots'' of
                            None \<Rightarrow> JArr []
                          | Some JNull \<Rightarrow> JArr []
                          | Some v \<Rightarrow> v)\<rparr>)"

text \<open>"Timeslots defaulted to empty": the stored value if it is an array, else \<open>[]\<close>.\<close>

definition array_or_empty :: "json option \<Rightarrow> json" where
  "array_or_empty v = (case v of Some (JArr ts) \<Rightarrow> JArr ts | _ \<Rightarrow> JArr [])"

section \<open>Parsing a time of day\<close>

lemma exec_hhmm_None_iff: "exec_hhmm v = None \<longleftrightarrow> \<not> matches_hhmm v"
proof (cases "length v = 5")
  case True
  then obtain a b c d e where v: "v = [a, b, c, d, e]"
    by (auto simp: length_Suc_conv eval_nat_numeral)
  show ?thesis
    by (simp add: v matches_hhmm_def)
next
  case False
  then have "exec_hhmm v = None"
    by (induction v rule: exec_hhmm.induct) simp_all
  with False show ?thesis
    by (simp add: matches_hhmm_def)
qed

lemma digit_value_range: "is_digit c \<Longrightarrow> 0 \<le> digit_value c \<and> digit_value c \<le> 9"
  by (simp add: is_digit_def digit_value_def word_le_def)

lemma fromTimeStringHHMM_digits:
  assumes "is_digit a" "is_digit b" "is_digit c" "is_digit d"
  shows "fromTimeStringHHMM [a, b, 58, c, d] =
           min (10 * digit_value a + digit_value b) 23 * 3600 +
           min (10 * digit_value c + digit_value d) 59 * 60"
proof -
  have "0 \<le> 10 * digit_value a + digit_value b" "0 \<le> 10 * digit_value c + digit_value d"
    using assms digit_value_range by fastforce+
  then show ?thesis
    using assms
    by (simp add: fromTimeStringHHMM_def Number_of_digits_def digit_value_def
        Let_def max_def min_def)
qed

text \<open>
  C9. A string that does not have the shape \<open>\d{2}:\d{2}\<close> is parsed to 0 seconds.
  \<open>fromTimeStringHHMM\<close> has no raising path at all: it is a total function to the
  integers, so there is no exception to report.
\<close>

theorem fromTimeStringHHMM_malformed:
  "\<not> matches_hhmm v \<Longrightarrow> fromTimeStringHHMM v = 0"
  using exec_hhmm_None_iff [of v] by (simp add: fromTimeStringHHMM_def)

text \<open>The witness is the four-character text \<open>9:30\<close>.\<close>

theorem fromTimeStringHHMM_malformed_witness:
  "\<not> matches_hhmm [57, 58, 51, 48] \<and> fromTimeStringHHMM [57, 58, 51, 48] = 0"
  using fromTimeStringHHMM_malformed [of "[57, 58, 51, 48]"]
  by (simp add: matches_hhmm_def)

text \<open>
  C10. A string of the shape \<open>\d{2}:\d{2}\<close> with field values \<open>hh\<close> and \<open>mm\<close> is
  parsed to \<open>min hh 23 * 3600 + min mm 59 * 60\<close>: a field out of range is clamped,
  not rejected, and the result lies between 0 and 86340.
\<close>

theorem fromTimeStringHHMM_clamps:
  assumes "matches_hhmm v"
  shows "fromTimeStringHHMM v =
           min (10 * digit_value (v ! 0) + digit_value (v ! 1)) 23 * 3600 +
           min (10 * digit_value (v ! 3) + digit_value (v ! 4)) 59 * 60
         \<and> 0 \<le> fromTimeStringHHMM v \<and> fromTimeStringHHMM v \<le> 86340"
proof -
  from assms obtain a b c d e where v: "v = [a, b, c, d, e]"
    by (auto simp: matches_hhmm_def length_Suc_conv eval_nat_numeral)
  with assms have dg: "is_digit a" "is_digit b" "c = 58" "is_digit d" "is_digit e"
    by (simp_all add: matches_hhmm_def)
  have eq: "fromTimeStringHHMM v =
      min (10 * digit_value a + digit_value b) 23 * 3600 +
      min (10 * digit_value d + digit_value e) 59 * 60"
    using fromTimeStringHHMM_digits [OF dg(1,2,4,5)] by (simp add: v dg(3))
  have "0 \<le> 10 * digit_value a + digit_value b" "0 \<le> 10 * digit_value d + digit_value e"
    using dg digit_value_range by fastforce+
  then have "0 \<le> fromTimeStringHHMM v" "fromTimeStringHHMM v \<le> 86340"
    unfolding eq by (simp_all add: min_def)
  with eq show ?thesis
    by (simp add: v)
qed

text \<open>The witness is the text \<open>99:99\<close>, which is parsed to 86340 and not to 0.\<close>

theorem fromTimeStringHHMM_clamps_witness:
  "matches_hhmm [57, 57, 58, 57, 57] \<and> fromTimeStringHHMM [57, 57, 58, 57, 57] = 86340"
  using fromTimeStringHHMM_clamps [of "[57, 57, 58, 57, 57]"]
  by (simp add: matches_hhmm_def is_digit_def digit_value_def)

section \<open>Inserting a range\<close>

subsection \<open>The search\<close>

lemma insert_pos_spec:
  assumes "\<forall>i j. i \<le> j \<and> j < n \<longrightarrow> f i \<le> f j"
    and "lo \<le> hi" and "hi \<le> n"
    and "\<forall>i<lo. f i \<le> s" and "\<forall>i. hi \<le> i \<and> i < n \<longrightarrow> s < f i"
  shows "insert_pos f s lo hi \<le> n \<and> (\<forall>i<insert_pos f s lo hi. f i \<le> s) \<and>
         (\<forall>i. insert_pos f s lo hi \<le> i \<and> i < n \<longrightarrow> s < f i)"
  using assms
proof (induction f s lo hi rule: insert_pos.induct)
  case (1 f s lo hi)
  let ?mid = "(lo + hi) div 2"
  show ?case
  proof (cases "lo < hi")
    case False
    then have "insert_pos f s lo hi = lo"
      by (simp add: insert_pos.simps [of f s lo hi])
    moreover have "lo = hi" using False "1.prems"(2) by simp
    ultimately show ?thesis
      using "1.prems" by simp
  next
    case True
    then have mid: "lo \<le> ?mid" "?mid < hi" by auto
    show ?thesis
    proof (cases "f ?mid \<le> s")
      case le: True
      have below: "\<forall>i<?mid + 1. f i \<le> s"
      proof (intro allI impI)
        fix i assume "i < ?mid + 1"
        then have "i \<le> ?mid" "?mid < n" using mid "1.prems"(3) by auto
        then have "f i \<le> f ?mid" using "1.prems"(1) by blast
        with le show "f i \<le> s" by simp
      qed
      have "insert_pos f s lo hi = insert_pos f s (?mid + 1) hi"
        using True le by (simp add: insert_pos.simps [of f s lo hi])
      moreover have "?mid + 1 \<le> hi" using mid by simp
      ultimately show ?thesis
        using "1.IH"(1) [OF True le "1.prems"(1) _ "1.prems"(3) below "1.prems"(5)]
        by simp
    next
      case gt: False
      have above: "\<forall>i. ?mid \<le> i \<and> i < n \<longrightarrow> s < f i"
      proof (intro allI impI)
        fix i assume "?mid \<le> i \<and> i < n"
        then have "f ?mid \<le> f i" using "1.prems"(1) by blast
        with gt show "s < f i" by simp
      qed
      have "insert_pos f s lo hi = insert_pos f s lo ?mid"
        using True gt by (simp add: insert_pos.simps [of f s lo hi])
      moreover have "?mid \<le> n" using mid "1.prems"(3) by simp
      ultimately show ?thesis
        using "1.IH"(2) [OF True gt "1.prems"(1) mid(1) _ "1.prems"(4) above]
        by simp
    qed
  qed
qed

lemma insert_pos_unique:
  assumes mono: "\<forall>i j. i \<le> j \<and> j < n \<longrightarrow> f i \<le> f j"
    and "p \<le> n" and "\<forall>i<p. f i \<le> s" and "\<forall>i. p \<le> i \<and> i < n \<longrightarrow> s < f i"
  shows "insert_pos f s 0 n = p"
proof -
  let ?q = "insert_pos f s 0 n"
  have q: "?q \<le> n" "\<forall>i<?q. f i \<le> s" "\<forall>i. ?q \<le> i \<and> i < n \<longrightarrow> s < f i"
    using insert_pos_spec [OF mono, of 0 n s] by simp_all
  have "\<not> ?q < p"
  proof
    assume "?q < p"
    then have "f ?q \<le> s" "s < f ?q" using assms(2,3) q(3) by auto
    then show False by simp
  qed
  moreover have "\<not> p < ?q"
  proof
    assume "p < ?q"
    then have "f p \<le> s" "s < f p" using assms(4) q(1,2) by auto
    then show False by simp
  qed
  ultimately show ?thesis by simp
qed

subsection \<open>Arrays of references and the lists they denote\<close>

lemma vals_append [simp]: "vals h (xs @ ys) = vals h xs @ vals h ys"
  by (simp add: vals_def)

lemma vals_Cons [simp]: "vals h (r # xs) = h ! r # vals h xs"
  by (simp add: vals_def)

lemma vals_Nil [simp]: "vals h [] = []"
  by (simp add: vals_def)

lemma length_vals [simp]: "length (vals h xs) = length xs"
  by (simp add: vals_def)

lemma vals_nth: "i < length xs \<Longrightarrow> vals h xs ! i = h ! (xs ! i)"
  by (simp add: vals_def)

lemma vals_alloc: "list_all (\<lambda>r. r < length h) xs \<Longrightarrow> vals (h @ [x]) xs = vals h xs"
  by (simp add: vals_def list_all_iff nth_append)

lemma vals_update_other: "a \<notin> set xs \<Longrightarrow> vals (h[a := v]) xs = vals h xs"
  by (induction xs) auto

lemma list_all_take_drop:
  "list_all P xs \<Longrightarrow> list_all P (take n xs) \<and> list_all P (drop n xs)"
  by (auto simp: list_all_iff dest: in_set_takeD in_set_dropD)

lemma split_at_pair:
  assumes "Suc i < length xs"
  shows "xs = take i xs @ xs ! i # xs ! Suc i # drop (Suc (Suc i)) xs"
    and "splice_remove (Suc i) xs = take i xs @ xs ! i # drop (Suc (Suc i)) xs"
proof -
  from assms have "i < length xs" by simp
  then have "xs = take i xs @ xs ! i # drop (Suc i) xs"
    by (rule id_take_nth_drop)
  also have "drop (Suc i) xs = xs ! Suc i # drop (Suc (Suc i)) xs"
    using assms by (simp add: Cons_nth_drop_Suc)
  finally show "xs = take i xs @ xs ! i # xs ! Suc i # drop (Suc (Suc i)) xs" .
  show "splice_remove (Suc i) xs = take i xs @ xs ! i # drop (Suc (Suc i)) xs"
    using \<open>i < length xs\<close> by (simp add: splice_remove_def take_Suc_conv_app_nth)
qed

subsection \<open>The invariant on values\<close>

text \<open>With well-formed entries the invariant relates every pair, not only neighbours.\<close>

lemma slots_inv_wf_iff:
  assumes "list_all wf_slot vs"
  shows "slots_inv vs \<longleftrightarrow> sorted_wrt (\<lambda>a b. end' a < start b) vs"
  using assms
proof (induction vs)
  case Nil
  then show ?case by (simp add: slots_inv_def)
next
  case (Cons a vs)
  show ?case
  proof (cases vs)
    case Nil
    then show ?thesis by (simp add: slots_inv_def)
  next
    case (Cons b ws)
    have step: "list_all wf_slot (b # ws) \<Longrightarrow> sorted_wrt (\<lambda>a b. end' a < start b) (b # ws) \<Longrightarrow>
        end' a < start b \<Longrightarrow> x \<in> set ws \<Longrightarrow> end' a < start x" for x
      by (auto simp: wf_slot_def list_all_iff)
    have step2: "wf_slot a \<Longrightarrow> end' a < start x \<Longrightarrow> start a \<le> start x" for x
      by (simp add: wf_slot_def)
    show ?thesis
      using Cons.IH Cons.prems step step2 unfolding Cons slots_inv_def
      by (auto simp: list_all_iff)
  qed
qed

lemma wf_slots_distinct:
  assumes "list_all wf_slot vs" and "slots_inv vs"
  shows "distinct vs"
proof -
  from assms have "sorted_wrt (\<lambda>a b. end' a < start b) vs"
    by (simp add: slots_inv_wf_iff)
  with assms(1) show ?thesis
    by (induction vs) (auto simp: wf_slot_def)
qed

text \<open>Lists of well-formed entries under the invariant never hold an object twice.\<close>

lemma store_inv_wf:
  assumes "list_all (\<lambda>r. r < length h) list" and "slots_inv (vals h list)"
    and "list_all wf_slot (vals h list)"
  shows "store_inv h list"
proof -
  have "distinct (vals h list)"
    using assms(3,2) by (rule wf_slots_distinct)
  then have "distinct list"
    by (simp add: vals_def distinct_map)
  with assms show ?thesis
    by (simp add: store_inv_def)
qed

lemma slots_inv_absorb:
  assumes "slots_inv (xs @ a # b # ys)"
  shows "slots_inv (xs @ a\<lparr>end' := end' b\<rparr> # ys)"
proof -
  from assms have "sorted (map start (xs @ a\<lparr>end' := end' b\<rparr> # ys))"
    by (auto simp: slots_inv_def sorted_append)
  moreover from assms
  have "successively (\<lambda>a b. end' a < start b) (xs @ a\<lparr>end' := end' b\<rparr> # ys)"
    by (cases ys) (auto simp: slots_inv_def successively_append_iff)
  ultimately show ?thesis
    by (simp add: slots_inv_def)
qed

lemma wf_slots_absorb:
  assumes "slots_inv (xs @ a # b # ys)" and "list_all wf_slot (xs @ a # b # ys)"
  shows "list_all wf_slot (xs @ a\<lparr>end' := end' b\<rparr> # ys)"
proof -
  from assms(1) have "end' a < start b"
    by (simp add: slots_inv_def successively_append_iff)
  with assms(2) show ?thesis
    by (simp add: wf_slot_def)
qed

lemma absorb_at_split:
  assumes "Suc i < length vs"
  shows "absorb_at i vs = take i vs @ (vs ! i)\<lparr>end' := end' (vs ! Suc i)\<rparr> # drop (Suc (Suc i)) vs"
    and "vs = take i vs @ vs ! i # vs ! Suc i # drop (Suc (Suc i)) vs"
  using split_at_pair(1) [OF assms] by (simp_all add: absorb_at_def)

lemma slots_inv_absorb_at:
  assumes "slots_inv vs" and "Suc i < length vs"
  shows "slots_inv (absorb_at i vs)"
  using slots_inv_absorb [of "take i vs" "vs ! i" "vs ! Suc i" "drop (Suc (Suc i)) vs"]
    absorb_at_split [OF assms(2)] assms(1) by simp

lemma wf_slots_absorb_at:
  assumes "slots_inv vs" and "list_all wf_slot vs" and "Suc i < length vs"
  shows "list_all wf_slot (absorb_at i vs)"
  using wf_slots_absorb [of "take i vs" "vs ! i" "vs ! Suc i" "drop (Suc (Suc i)) vs"]
    absorb_at_split [OF assms(3)] assms(1,2) by simp

lemma slots_inv_insert:
  assumes "slots_inv vs" and "fits_at vs pos s e"
  shows "slots_inv (take pos vs @ \<lparr>start = s, end' = e, meta = m\<rparr> # drop pos vs)"
proof -
  let ?T = "take pos vs" and ?D = "drop pos vs"
  let ?P = "\<lambda>a b. end' a < start b"
  from assms(1) have "sorted (map start (?T @ ?D))" "successively ?P (?T @ ?D)"
    by (simp_all add: slots_inv_def)
  then have srt: "sorted (map start ?T)" "sorted (map start ?D)"
    and suc: "successively ?P ?T" "successively ?P ?D"
    unfolding map_append sorted_append successively_append_iff by simp_all
  from assms(2) have pos: "pos \<le> length vs" by (simp add: fits_at_def)
  have lastT: "?T \<noteq> [] \<Longrightarrow> end' (last ?T) < s"
    using assms(2) pos by (simp add: fits_at_def last_conv_nth min_absorb2)
  have hdD: "?D \<noteq> [] \<Longrightarrow> e < start (hd ?D)"
    using assms(2) by (simp add: fits_at_def hd_drop_conv_nth)
  have "sorted (map start (?T @ \<lparr>start = s, end' = e, meta = m\<rparr> # ?D))"
    using srt assms(2) by (fastforce simp: sorted_append fits_at_def)
  moreover have "successively ?P (?T @ \<lparr>start = s, end' = e, meta = m\<rparr> # ?D)"
    using suc lastT hdD by (auto simp: successively_append_iff successively_Cons)
  ultimately show ?thesis
    by (simp add: slots_inv_def)
qed

subsection \<open>The steps on the store\<close>

lemma absorb_vals:
  assumes "store_inv h (xs @ a # b # ys)"
  shows "vals (set_end h a b) (xs @ a # ys) =
           vals h xs @ (h ! a)\<lparr>end' := end' (h ! b)\<rparr> # vals h ys"
proof -
  from assms have "distinct (xs @ a # b # ys)" "a < length h"
    by (simp_all add: store_inv_def)
  then have "a \<notin> set xs" "a \<notin> set ys" by auto
  with \<open>a < length h\<close> show ?thesis
    by (simp add: set_end_def vals_update_other)
qed

lemma absorb_inv:
  assumes "store_inv h (xs @ a # b # ys)"
  shows "store_inv (set_end h a b) (xs @ a # ys)"
proof -
  from assms have "slots_inv (vals h xs @ h ! a # h ! b # vals h ys)"
    by (simp add: store_inv_def)
  then have "slots_inv (vals h xs @ (h ! a)\<lparr>end' := end' (h ! b)\<rparr> # vals h ys)"
    by (rule slots_inv_absorb)
  moreover from assms have "list_all (\<lambda>r. r < length (set_end h a b)) (xs @ a # ys)"
    "distinct (xs @ a # ys)"
    by (simp_all add: store_inv_def set_end_def)
  ultimately show ?thesis
    unfolding store_inv_def absorb_vals [OF assms] by simp
qed

lemma absorb_at_vals:
  assumes "store_inv h next" and "Suc i < length next"
  shows "vals (set_end h (next ! i) (next ! Suc i)) (splice_remove (Suc i) next) =
           absorb_at i (vals h next)"
    and "store_inv (set_end h (next ! i) (next ! Suc i)) (splice_remove (Suc i) next)"
proof -
  note dec = split_at_pair [OF assms(2)]
  have inv: "store_inv h (take i next @ next ! i # next ! Suc i # drop (Suc (Suc i)) next)"
    using assms(1) dec(1) by simp
  then have "vals (set_end h (next ! i) (next ! Suc i))
      (take i next @ next ! i # drop (Suc (Suc i)) next) =
      vals h (take i next) @ (h ! (next ! i))\<lparr>end' := end' (h ! (next ! Suc i))\<rparr> #
      vals h (drop (Suc (Suc i)) next)"
    by (rule absorb_vals)
  then show "vals (set_end h (next ! i) (next ! Suc i)) (splice_remove (Suc i) next) =
      absorb_at i (vals h next)"
    using assms(2) unfolding dec(2) absorb_at_def
    by (simp add: vals_def take_map drop_map)
  show "store_inv (set_end h (next ! i) (next ! Suc i)) (splice_remove (Suc i) next)"
    unfolding dec(2) using inv by (rule absorb_inv)
qed

lemma contiguous_same_name_vals:
  assumes "i < length next" "j < length next"
  shows "contiguous_same_name h (next ! i) (next ! j) =
           touching (vals h next ! i) (vals h next ! j)"
  using assms by (simp add: contiguous_same_name_def touching_def name_of_def vals_nth)

lemma mergeLeft_vals:
  assumes "store_inv h next" and "pos < length next"
    and "mergeLeft (h, next, pos) = (h', next', pos')"
  shows "(vals h' next', pos') = merge_left_vals (vals h next, pos)"
    and "store_inv h' next'"
proof -
  have "(vals h' next', pos') = merge_left_vals (vals h next, pos) \<and> store_inv h' next'"
  proof (cases "pos > 0 \<and> contiguous_same_name h (next ! (pos - 1)) (next ! pos)")
    case False
    moreover have "contiguous_same_name h (next ! (pos - 1)) (next ! pos) =
        touching (vals h next ! (pos - 1)) (vals h next ! pos)"
      using assms(2) by (intro contiguous_same_name_vals) simp_all
    ultimately show ?thesis
      using assms(1,3) by (auto simp: mergeLeft_def merge_left_vals_def Let_def split: if_splits)
  next
    case True
    then obtain i where i: "pos = Suc i" by (cases pos) auto
    with assms(2) have len: "Suc i < length next" by simp
    from True assms(3) i have res: "h' = set_end h (next ! i) (next ! Suc i)"
      "next' = splice_remove (Suc i) next" "pos' = i"
      by (auto simp: mergeLeft_def Let_def)
    have "touching (vals h next ! i) (vals h next ! Suc i)"
      using True len contiguous_same_name_vals [of i "next" "Suc i" h] by (simp add: i)
    then show ?thesis
      unfolding res using absorb_at_vals [OF assms(1) len]
      by (simp add: merge_left_vals_def i)
  qed
  then show "(vals h' next', pos') = merge_left_vals (vals h next, pos)" "store_inv h' next'"
    by simp_all
qed

lemma mergeRight_vals:
  assumes "store_inv h next" and "mergeRight (h, next, pos) = (h', next')"
  shows "vals h' next' = merge_right_vals (vals h next, pos)"
    and "store_inv h' next'"
proof -
  have "vals h' next' = merge_right_vals (vals h next, pos) \<and> store_inv h' next'"
  proof (cases "Suc pos < length next \<and> contiguous_same_name h (next ! pos) (next ! Suc pos)")
    case False
    have "Suc pos < length next \<Longrightarrow> contiguous_same_name h (next ! pos) (next ! Suc pos) =
        touching (vals h next ! pos) (vals h next ! Suc pos)"
      by (intro contiguous_same_name_vals) simp_all
    with False show ?thesis
      using assms
      by (auto simp: mergeRight_def merge_right_vals_def Let_def split: if_splits)
  next
    case True
    then have len: "Suc pos < length next" by simp
    from True assms(2) have res: "h' = set_end h (next ! pos) (next ! Suc pos)"
      "next' = splice_remove (Suc pos) next"
      by (auto simp: mergeRight_def Let_def)
    have "touching (vals h next ! pos) (vals h next ! Suc pos)"
      using True contiguous_same_name_vals [of pos "next" "Suc pos" h] by simp
    then show ?thesis
      unfolding res using absorb_at_vals [OF assms(1) len] len
      by (simp add: merge_right_vals_def)
  qed
  then show "vals h' next' = merge_right_vals (vals h next, pos)" "store_inv h' next'"
    by simp_all
qed

lemma starts_mono:
  assumes "store_inv h list"
  shows "\<forall>i j. i \<le> j \<and> j < length list \<longrightarrow> start (h ! (list ! i)) \<le> start (h ! (list ! j))"
proof (intro allI impI)
  fix i j assume ij: "i \<le> j \<and> j < length list"
  from assms have "sorted (map start (vals h list))"
    by (simp add: store_inv_def slots_inv_def)
  then have "map start (vals h list) ! i \<le> map start (vals h list) ! j"
    using ij by (intro sorted_nth_mono) simp_all
  then show "start (h ! (list ! i)) \<le> start (h ! (list ! j))"
    using ij by (simp add: vals_def)
qed

lemma search_fits:
  assumes inv: "store_inv h list"
    and pos: "pos = insert_pos (\<lambda>i. start (h ! (list ! i))) s 0 (length list)"
    and prev: "\<not> (pos > 0 \<and> s \<le> end' (h ! (list ! (pos - 1))))"
    and nxt: "\<not> (pos < length list \<and> start (h ! (list ! pos)) \<le> e)"
  shows "fits_at (vals h list) pos s e"
proof -
  let ?vs = "vals h list"
  have sp: "pos \<le> length list" "\<forall>i<pos. start (h ! (list ! i)) \<le> s"
    "\<forall>i. pos \<le> i \<and> i < length list \<longrightarrow> s < start (h ! (list ! i))"
    using insert_pos_spec [OF starts_mono [OF inv], of 0 "length list" s] pos by simp_all
  have "start x \<le> s" if "x \<in> set (take pos ?vs)" for x
  proof -
    from that obtain i where "i < pos" "x = ?vs ! i"
      using sp(1) by (auto simp: in_set_conv_nth)
    then show ?thesis using sp(1,2) by (simp add: vals_nth)
  qed
  moreover have "s < start y" if "y \<in> set (drop pos ?vs)" for y
  proof -
    from that obtain k where "k < length (drop pos ?vs)" "y = drop pos ?vs ! k"
      unfolding in_set_conv_nth by blast
    then have "pos + k < length list" "y = ?vs ! (pos + k)"
      using sp(1) by simp_all
    then show ?thesis using sp(3) by (simp add: vals_nth)
  qed
  moreover have "0 < pos \<longrightarrow> end' (?vs ! (pos - 1)) < s"
    using prev sp(1) by (auto simp: vals_nth)
  moreover have "pos < length ?vs \<longrightarrow> e < start (?vs ! pos)"
    using nxt by (auto simp: vals_nth)
  ultimately show ?thesis
    using sp(1) by (simp add: fits_at_def)
qed

lemma normalizeRange_le: "normalizeRange a b = (s, e) \<Longrightarrow> s \<le> e"
  by (auto simp: normalizeRange_def Let_def split: if_splits)

lemma insert_step_vals:
  assumes "list_all (\<lambda>r. r < length h) list"
  shows "vals (h @ [x]) (splice_insert pos (length h) list) =
           take pos (vals h list) @ x # drop pos (vals h list)"
proof -
  from assms have "list_all (\<lambda>r. r < length h) (take pos list)"
    "list_all (\<lambda>r. r < length h) (drop pos list)"
    using list_all_take_drop [of "\<lambda>r. r < length h" list pos] by simp_all
  then show ?thesis
    by (simp add: splice_insert_def vals_alloc) (simp add: vals_def take_map drop_map)
qed

lemma insert_step_inv:
  assumes "store_inv h list" and "fits_at (vals h list) pos s e"
  shows "store_inv (h @ [\<lparr>start = s, end' = e, meta = m\<rparr>]) (splice_insert pos (length h) list)"
proof -
  from assms(1) have refs: "list_all (\<lambda>r. r < length h) list" and dist: "distinct list"
    by (simp_all add: store_inv_def)
  from refs have "list_all (\<lambda>r. r < Suc (length h)) list"
    by (auto simp: list_all_iff)
  then have "list_all (\<lambda>r. r < length (h @ [\<lparr>start = s, end' = e, meta = m\<rparr>]))
      (splice_insert pos (length h) list)"
    using list_all_take_drop [of "\<lambda>r. r < Suc (length h)" list pos]
    by (simp add: splice_insert_def)
  moreover have "distinct (splice_insert pos (length h) list)"
  proof -
    have "length h \<notin> set list" using refs by (auto simp: list_all_iff)
    then have "length h \<notin> set (take pos list)" "length h \<notin> set (drop pos list)"
      by (auto dest: in_set_takeD in_set_dropD)
    moreover have "distinct (take pos list) \<and> distinct (drop pos list) \<and>
        set (take pos list) \<inter> set (drop pos list) = {}"
      using dist distinct_append [of "take pos list" "drop pos list"] by simp
    ultimately show ?thesis
      unfolding splice_insert_def by auto
  qed
  moreover have "slots_inv (take pos (vals h list) @ \<lparr>start = s, end' = e, meta = m\<rparr> #
      drop pos (vals h list))"
    using assms by (intro slots_inv_insert) (simp_all add: store_inv_def)
  ultimately show ?thesis
    unfolding store_inv_def insert_step_vals [OF refs] by simp
qed

subsection \<open>The whole call\<close>

lemma addRangeNoOverlap_unfold:
  assumes "normalizeRange start0 end0 = (s, e)"
    and "pos = insert_pos (\<lambda>i. start (h ! (list ! i))) s 0 (length list)"
  shows "addRangeNoOverlap h list start0 end0 m =
     (if \<not> valid_meta m then (h, Inl TypeError_meta)
      else if pos > 0 \<and> s \<le> end' (h ! (list ! (pos - 1))) then (h, Inl Error_overlap_previous)
      else if pos < length list \<and> start (h ! (list ! pos)) \<le> e then (h, Inl Error_overlap_next)
      else (fst (mergeRight (mergeLeft (h @ [\<lparr>start = s, end' = e, meta = m\<rparr>],
                  splice_insert pos (length h) list, pos))),
            Inr (snd (mergeRight (mergeLeft (h @ [\<lparr>start = s, end' = e, meta = m\<rparr>],
                  splice_insert pos (length h) list, pos))))))"
  using assms
  by (simp add: addRangeNoOverlap_def valid_meta_def Let_def split: prod.splits)

text \<open>
  A call that returns: the checks it has passed, the invariant of what it returns,
  and the list the returned array denotes.
\<close>

lemma addRangeNoOverlap_success:
  assumes inv: "store_inv h list"
    and res: "addRangeNoOverlap h list start0 end0 m = (h', Inr list')"
    and se: "normalizeRange start0 end0 = (s, e)"
    and pos: "pos = insert_pos (\<lambda>i. start (h ! (list ! i))) s 0 (length list)"
  shows "fits_at (vals h list) pos s e" and "store_inv h' list'"
    and "vals h' list' = insert_vals (vals h list) pos s e m"
proof -
  define h1 where "h1 = h @ [\<lparr>start = s, end' = e, meta = m\<rparr>]"
  define next1 where "next1 = splice_insert pos (length h) list"
  note unf = addRangeNoOverlap_unfold [OF se pos, of m, folded h1_def next1_def]
  from res have ok: "\<not> (pos > 0 \<and> s \<le> end' (h ! (list ! (pos - 1))))"
    "\<not> (pos < length list \<and> start (h ! (list ! pos)) \<le> e)"
    and mr: "mergeRight (mergeLeft (h1, next1, pos)) = (h', list')"
    unfolding unf by (auto split: if_splits simp: prod_eq_iff)
  show fits: "fits_at (vals h list) pos s e"
    using inv pos ok by (rule search_fits)
  have inv1: "store_inv h1 next1"
    unfolding h1_def next1_def using inv fits by (rule insert_step_inv)
  have len1: "pos < length next1"
    using fits by (simp add: next1_def splice_insert_def fits_at_def)
  have v1: "vals h1 next1 = take pos (vals h list) @ \<lparr>start = s, end' = e, meta = m\<rparr> #
      drop pos (vals h list)"
    unfolding h1_def next1_def using inv by (intro insert_step_vals) (simp add: store_inv_def)
  obtain h2 next2 pos2 where ml: "mergeLeft (h1, next1, pos) = (h2, next2, pos2)"
    by (cases "mergeLeft (h1, next1, pos)")
  note left = mergeLeft_vals [OF inv1 len1 ml]
  note right = mergeRight_vals [OF left(2) mr [unfolded ml]]
  show "store_inv h' list'" by (rule right(2))
  show "vals h' list' = insert_vals (vals h list) pos s e m"
    unfolding right(1) left(1) insert_vals_def v1 ..
qed

lemma addRangeNoOverlap_returned:
  assumes inv: "store_inv h list" and vm: "valid_meta m"
    and se: "normalizeRange start0 end0 = (s, e)"
    and pos: "pos = insert_pos (\<lambda>i. start (h ! (list ! i))) s 0 (length list)"
    and prev: "\<not> (pos > 0 \<and> s \<le> end' (h ! (list ! (pos - 1))))"
    and nxt: "\<not> (pos < length list \<and> start (h ! (list ! pos)) \<le> e)"
  shows "returned (addRangeNoOverlap h list start0 end0 m) =
           Inr (insert_vals (vals h list) pos s e m)"
proof -
  obtain h' list' where res: "addRangeNoOverlap h list start0 end0 m = (h', Inr list')"
    using addRangeNoOverlap_unfold [OF se pos, of m] vm prev nxt by simp
  show ?thesis
    using addRangeNoOverlap_success(3) [OF inv res se pos] by (simp add: returned_def res)
qed

lemma wf_slots_insert_vals:
  assumes "slots_inv vs" and "list_all wf_slot vs" and "fits_at vs pos s e" and "s \<le> e"
  shows "list_all wf_slot (insert_vals vs pos s e m)"
proof -
  define l1 where "l1 = take pos vs @ \<lparr>start = s, end' = e, meta = m\<rparr> # drop pos vs"
  have inv1: "slots_inv l1"
    unfolding l1_def using assms(1,3) by (rule slots_inv_insert)
  have wf1: "list_all wf_slot l1"
    unfolding l1_def using list_all_take_drop [OF assms(2), of pos] assms(4)
    by (simp add: wf_slot_def)
  have len1: "pos < length l1"
    using assms(3) by (simp add: fits_at_def l1_def)
  obtain l2 pos2 where ml: "merge_left_vals (l1, pos) = (l2, pos2)"
    by (cases "merge_left_vals (l1, pos)")
  have l2: "slots_inv l2 \<and> list_all wf_slot l2"
  proof (cases "pos > 0 \<and> touching (l1 ! (pos - 1)) (l1 ! pos)")
    case True
    then have "Suc (pos - 1) < length l1"
      using len1 by simp
    moreover have "l2 = absorb_at (pos - 1) l1"
      using True ml by (auto simp: merge_left_vals_def)
    ultimately show ?thesis
      using slots_inv_absorb_at [OF inv1] wf_slots_absorb_at [OF inv1 wf1] by blast
  next
    case False
    then have "l2 = l1" using ml by (auto simp: merge_left_vals_def)
    then show ?thesis using inv1 wf1 by simp
  qed
  have "list_all wf_slot (merge_right_vals (l2, pos2))"
    using l2 wf_slots_absorb_at [of l2 pos2] by (simp add: merge_right_vals_def)
  then show ?thesis
    by (simp add: insert_vals_def ml l1_def [symmetric])
qed

subsection \<open>Overlap\<close>

lemma ends_before:
  assumes "slots_inv vs" and "list_all wf_slot vs" and "i \<le> j" and "j < length vs"
  shows "end' (vs ! i) \<le> end' (vs ! j)"
proof (cases "i = j")
  case True
  then show ?thesis by simp
next
  case False
  with assms have "i < j" by simp
  moreover from assms(1,2) have "sorted_wrt (\<lambda>a b. end' a < start b) vs"
    by (simp add: slots_inv_wf_iff)
  ultimately have "end' (vs ! i) < start (vs ! j)"
    using assms(4) by (auto simp: sorted_wrt_iff_nth_less)
  moreover have "wf_slot (vs ! j)"
    using assms(2,4) by (simp add: list_all_length)
  ultimately show ?thesis by (simp add: wf_slot_def)
qed

lemma fits_at_clear:
  assumes "slots_inv vs" and "list_all wf_slot vs" and "fits_at vs pos s e" and "a \<in> set vs"
  shows "\<not> intersects s e a"
proof -
  from assms(4) obtain i where i: "i < length vs" "a = vs ! i"
    by (auto simp: in_set_conv_nth)
  from assms(3) have pos: "pos \<le> length vs" "0 < pos \<longrightarrow> end' (vs ! (pos - 1)) < s"
    "pos < length vs \<longrightarrow> e < start (vs ! pos)"
    by (simp_all add: fits_at_def)
  show ?thesis
  proof (cases "i < pos")
    case True
    then have "end' (vs ! i) \<le> end' (vs ! (pos - 1))"
      using pos(1) by (intro ends_before [OF assms(1,2)]) simp_all
    with True pos(2) show ?thesis
      by (simp add: intersects_def i(2))
  next
    case False
    from assms(1) have "sorted (map start vs)" by (simp add: slots_inv_def)
    then have "map start vs ! pos \<le> map start vs ! i"
      using False i(1) by (intro sorted_nth_mono) simp_all
    with False i(1) pos(3) show ?thesis
      by (simp add: intersects_def i(2))
  qed
qed

text \<open>
  C1. A successful insertion keeps the invariant. If the array denotes a timeslot
  list that is sorted ascending by \<open>start\<close> with every entry ending before the next
  one starts, then so does the array \<open>addRangeNoOverlap\<close> returns, read in the store
  after the call. The array it is given holds no object twice, and neither does the
  one it returns; this is so of itself when every entry has \<open>start \<le> end\<close> (lemma
  \<open>store_inv_wf\<close>), which the call preserves as well.
\<close>

theorem addRangeNoOverlap_preserves_invariant:
  assumes "store_inv h list"
    and "addRangeNoOverlap h list start0 end0 m = (h', Inr list')"
  shows "store_inv h' list' \<and>
         (list_all wf_slot (vals h list) \<longrightarrow> list_all wf_slot (vals h' list'))"
proof -
  obtain s e where se: "normalizeRange start0 end0 = (s, e)"
    by (cases "normalizeRange start0 end0")
  define pos where "pos = insert_pos (\<lambda>i. start (h ! (list ! i))) s 0 (length list)"
  note success = addRangeNoOverlap_success [OF assms se pos_def]
  have "list_all wf_slot (vals h' list')" if "list_all wf_slot (vals h list)"
    unfolding success(3)
    using assms(1) that success(1) normalizeRange_le [OF se]
    by (intro wf_slots_insert_vals) (simp_all add: store_inv_def)
  with success(2) show ?thesis by simp
qed

text \<open>
  The witness is the second step of the specification's example: \<open>[3600, 7199]\<close>
  named \<open>focus\<close> is added to the list holding \<open>[0, 3599]\<close> named \<open>focus\<close>.
\<close>

theorem addRangeNoOverlap_preserves_invariant_witness:
  "store_inv [\<lparr>start = 0, end' = 3599, meta = named ''focus''\<rparr>] [0] \<and>
   addRangeNoOverlap [\<lparr>start = 0, end' = 3599, meta = named ''focus''\<rparr>] [0] 3600 7199
       (named ''focus'') =
     ([\<lparr>start = 0, end' = 7199, meta = named ''focus''\<rparr>,
       \<lparr>start = 3600, end' = 7199, meta = named ''focus''\<rparr>], Inr [0]) \<and>
   store_inv [\<lparr>start = 0, end' = 7199, meta = named ''focus''\<rparr>,
              \<lparr>start = 3600, end' = 7199, meta = named ''focus''\<rparr>] [0] \<and>
   list_all wf_slot (vals [\<lparr>start = 0, end' = 7199, meta = named ''focus''\<rparr>,
              \<lparr>start = 3600, end' = 7199, meta = named ''focus''\<rparr>] [0])"
proof -
  have inv: "store_inv [\<lparr>start = 0, end' = 3599, meta = named ''focus''\<rparr>] [0]"
    by code_simp
  have run: "addRangeNoOverlap [\<lparr>start = 0, end' = 3599, meta = named ''focus''\<rparr>] [0] 3600 7199
       (named ''focus'') =
     ([\<lparr>start = 0, end' = 7199, meta = named ''focus''\<rparr>,
       \<lparr>start = 3600, end' = 7199, meta = named ''focus''\<rparr>], Inr [0])"
    by code_simp
  have wf: "list_all wf_slot (vals [\<lparr>start = 0, end' = 3599, meta = named ''focus''\<rparr>] [0])"
    by code_simp
  show ?thesis
    using inv run wf addRangeNoOverlap_preserves_invariant [OF inv run] by simp
qed

text \<open>
  C2. On a timeslot list that satisfies the invariant, with entries that have
  \<open>start \<le> end\<close>, and with a \<open>meta\<close> that passes the check, \<open>addRangeNoOverlap\<close>
  raises one of its two overlap errors exactly when the normalized range \<open>[s, e]\<close> has
  a second in common with some entry of the list: testing the two neighbours of the
  insertion position finds every overlap. Whenever the call raises, the store (and
  with it every entry of the input list) is as it was.
\<close>

theorem addRangeNoOverlap_overlap_iff:
  assumes "store_inv h list" and "list_all wf_slot (vals h list)" and "valid_meta m"
    and "normalizeRange start0 end0 = (s, e)"
  shows "(is_overlap_error (snd (addRangeNoOverlap h list start0 end0 m)) \<longleftrightarrow>
           (\<exists>a\<in>set (vals h list). intersects s e a))
         \<and> (\<forall>err. snd (addRangeNoOverlap h list start0 end0 m) = Inl err \<longrightarrow>
               fst (addRangeNoOverlap h list start0 end0 m) = h)"
proof -
  let ?vs = "vals h list"
  define pos where "pos = insert_pos (\<lambda>i. start (h ! (list ! i))) s 0 (length list)"
  note unf = addRangeNoOverlap_unfold [OF assms(4) pos_def, of m]
  have sp: "pos \<le> length list" "\<forall>i<pos. start (h ! (list ! i)) \<le> s"
    "\<forall>i. pos \<le> i \<and> i < length list \<longrightarrow> s < start (h ! (list ! i))"
    using insert_pos_spec [OF starts_mono [OF assms(1)], of 0 "length list" s] pos_def
    by simp_all
  have se: "s \<le> e" using assms(4) by (rule normalizeRange_le)
  let ?prev = "pos > 0 \<and> s \<le> end' (h ! (list ! (pos - 1)))"
  let ?nxt = "pos < length list \<and> start (h ! (list ! pos)) \<le> e"
  have err_iff: "is_overlap_error (snd (addRangeNoOverlap h list start0 end0 m)) \<longleftrightarrow> ?prev \<or> ?nxt"
    unfolding unf using assms(3) by (simp add: is_overlap_error_def)
  have "\<exists>a\<in>set ?vs. intersects s e a" if ?prev
  proof -
    from that sp(1) have "pos - 1 < length list" by auto
    then have "?vs ! (pos - 1) \<in> set ?vs" by simp
    moreover have "start (h ! (list ! (pos - 1))) \<le> s" using sp(2) that by simp
    ultimately show ?thesis
      using that se \<open>pos - 1 < length list\<close>
      by (intro bexI [of _ "?vs ! (pos - 1)"]) (simp_all add: intersects_def vals_nth)
  qed
  moreover have "\<exists>a\<in>set ?vs. intersects s e a" if ?nxt
  proof -
    from that have "?vs ! pos \<in> set ?vs" by simp
    moreover have "s < start (h ! (list ! pos))" using sp(3) that by simp
    moreover have "wf_slot (?vs ! pos)" using assms(2) that by (simp add: list_all_length)
    ultimately show ?thesis
      using that
      by (intro bexI [of _ "?vs ! pos"]) (simp_all add: intersects_def vals_nth wf_slot_def)
  qed
  moreover have "\<not> (\<exists>a\<in>set ?vs. intersects s e a)" if "\<not> ?prev" "\<not> ?nxt"
  proof -
    have "fits_at ?vs pos s e"
      using assms(1) pos_def that by (rule search_fits)
    moreover have "slots_inv ?vs"
      using assms(1) by (simp add: store_inv_def)
    ultimately show ?thesis
      using fits_at_clear [OF _ assms(2)] by blast
  qed
  ultimately have "is_overlap_error (snd (addRangeNoOverlap h list start0 end0 m)) \<longleftrightarrow>
      (\<exists>a\<in>set ?vs. intersects s e a)"
    unfolding err_iff by blast
  moreover have "\<forall>err. snd (addRangeNoOverlap h list start0 end0 m) = Inl err \<longrightarrow>
      fst (addRangeNoOverlap h list start0 end0 m) = h"
    unfolding unf by simp
  ultimately show ?thesis by simp
qed

text \<open>
  The witness is the third step of the specification's example: \<open>[1000, 2000]\<close> is
  refused on the list holding \<open>[0, 7199]\<close>.
\<close>

theorem addRangeNoOverlap_overlap_iff_witness:
  "store_inv [\<lparr>start = 0, end' = 7199, meta = named ''focus''\<rparr>] [0] \<and>
   list_all wf_slot (vals [\<lparr>start = 0, end' = 7199, meta = named ''focus''\<rparr>] [0]) \<and>
   valid_meta (named ''x'') \<and> normalizeRange 1000 2000 = (1000, 2000) \<and>
   is_overlap_error
     (snd (addRangeNoOverlap [\<lparr>start = 0, end' = 7199, meta = named ''focus''\<rparr>] [0]
        1000 2000 (named ''x''))) \<and>
   (\<exists>a\<in>set (vals [\<lparr>start = 0, end' = 7199, meta = named ''focus''\<rparr>] [0]).
      intersects 1000 2000 a) \<and>
   fst (addRangeNoOverlap [\<lparr>start = 0, end' = 7199, meta = named ''focus''\<rparr>] [0]
        1000 2000 (named ''x'')) = [\<lparr>start = 0, end' = 7199, meta = named ''focus''\<rparr>]"
proof -
  have inv: "store_inv [\<lparr>start = 0, end' = 7199, meta = named ''focus''\<rparr>] [0]"
    by code_simp
  have wf: "list_all wf_slot (vals [\<lparr>start = 0, end' = 7199, meta = named ''focus''\<rparr>] [0])"
    by code_simp
  have vm: "valid_meta (named ''x'')"
    by code_simp
  have nr: "normalizeRange 1000 2000 = (1000, 2000)"
    by code_simp
  have hit: "\<exists>a\<in>set (vals [\<lparr>start = 0, end' = 7199, meta = named ''focus''\<rparr>] [0]).
      intersects 1000 2000 a"
    by (simp add: intersects_def)
  have err: "snd (addRangeNoOverlap [\<lparr>start = 0, end' = 7199, meta = named ''focus''\<rparr>] [0]
        1000 2000 (named ''x'')) = Inl Error_overlap_previous"
    by code_simp
  show ?thesis
    using inv wf vm nr hit err addRangeNoOverlap_overlap_iff [OF inv wf vm nr] by simp
qed

subsection \<open>Merging with the neighbours\<close>

lemma insert_vals_after:
  "insert_vals (X @ a # Y) (Suc (length X)) s x m =
     (case Y of
        [] \<Rightarrow> (if touching a \<lparr>start = s, end' = x, meta = m\<rparr>
               then X @ [a\<lparr>end' := x\<rparr>]
               else X @ [a, \<lparr>start = s, end' = x, meta = m\<rparr>])
      | b # Y' \<Rightarrow>
          (if touching a \<lparr>start = s, end' = x, meta = m\<rparr>
           then (if touching \<lparr>start = s, end' = x, meta = m\<rparr> b
                 then X @ a\<lparr>end' := end' b\<rparr> # Y'
                 else X @ a\<lparr>end' := x\<rparr> # b # Y')
           else (if touching \<lparr>start = s, end' = x, meta = m\<rparr> b
                 then X @ a # \<lparr>start = s, end' = end' b, meta = m\<rparr> # Y'
                 else X @ a # \<lparr>start = s, end' = x, meta = m\<rparr> # b # Y')))"
  by (cases Y)
    (auto simp: insert_vals_def merge_left_vals_def merge_right_vals_def absorb_at_def
      nth_append touching_def)

text \<open>
  C3, as amended. Let the list, of entries with \<open>start \<le> end\<close> under the invariant,
  be \<open>X\<close>, then the entry \<open>a\<close>, then \<open>Y\<close>, and let
  \<open>[a.end + 1, x]\<close> be a range within the day that ends before every entry of \<open>Y\<close>
  starts. Adding it with the \<open>meta.name\<close> of \<open>a\<close> leaves one entry in place of \<open>a\<close>,
  with the \<open>start\<close> and the \<open>meta\<close> of \<open>a\<close>; its end is \<open>x\<close>, unless the first entry of
  \<open>Y\<close> starts at \<open>x + 1\<close> under the same name, in which case that entry is absorbed as
  well and the merged entry ends where it ended. Adding the range under another name
  leaves \<open>a\<close> as it was, followed by a distinct entry that starts at \<open>a.end + 1\<close> and
  carries the new \<open>meta\<close> (and absorbs the first entry of \<open>Y\<close> under the same
  condition).
\<close>

theorem addRangeNoOverlap_adjacent:
  assumes inv: "store_inv h list" and wf: "list_all wf_slot (vals h list)"
    and vs: "vals h list = X @ a # Y" and vm: "valid_meta m"
    and lo: "0 \<le> end' a + 1" and le: "end' a + 1 \<le> x" and hi: "x \<le> 86399"
    and free: "\<forall>b\<in>set Y. x < start b"
  shows "returned (addRangeNoOverlap h list (end' a + 1) x m) =
     Inr (case Y of
        [] \<Rightarrow> (if get_prop (meta a) ''name'' = get_prop m ''name''
               then X @ [a\<lparr>end' := x\<rparr>]
               else X @ [a, \<lparr>start = end' a + 1, end' = x, meta = m\<rparr>])
      | b # Y' \<Rightarrow>
          (if get_prop (meta a) ''name'' = get_prop m ''name''
           then (if x + 1 = start b \<and> get_prop m ''name'' = get_prop (meta b) ''name''
                 then X @ a\<lparr>end' := end' b\<rparr> # Y'
                 else X @ a\<lparr>end' := x\<rparr> # b # Y')
           else (if x + 1 = start b \<and> get_prop m ''name'' = get_prop (meta b) ''name''
                 then X @ a # \<lparr>start = end' a + 1, end' = end' b, meta = m\<rparr> # Y'
                 else X @ a # \<lparr>start = end' a + 1, end' = x, meta = m\<rparr> # b # Y')))"
proof -
  let ?s = "end' a + 1"
  let ?f = "\<lambda>i. start (h ! (list ! i))"
  have len: "length list = Suc (length X + length Y)"
    using arg_cong [OF vs, of length] by simp
  have f: "?f j = start ((X @ a # Y) ! j)" if "j < length list" for j
    using that vals_nth [of j list h] by (simp add: vs)
  have wfa: "wf_slot a"
    using wf by (simp add: vs)
  have se: "normalizeRange ?s x = (?s, x)"
    using lo le hi by (simp add: normalizeRange_def)
  have below: "\<forall>j<Suc (length X). ?f j \<le> ?s"
  proof (intro allI impI)
    fix j assume j: "j < Suc (length X)"
    then have "?f j \<le> ?f (length X)"
      using starts_mono [OF inv] len by simp
    also have "?f (length X) = start a"
      using len by (simp add: f)
    finally show "?f j \<le> ?s"
      using wfa by (simp add: wf_slot_def)
  qed
  have above: "\<forall>j. Suc (length X) \<le> j \<and> j < length list \<longrightarrow> ?s < ?f j"
  proof (intro allI impI)
    fix j assume j: "Suc (length X) \<le> j \<and> j < length list"
    then have "(X @ a # Y) ! j \<in> set Y"
      using len by (auto simp: nth_append nth_Cons split: nat.splits)
    then have "x < start ((X @ a # Y) ! j)"
      using free by blast
    then show "?s < ?f j"
      using j le by (simp add: f)
  qed
  have pos: "Suc (length X) = insert_pos ?f ?s 0 (length list)"
    using insert_pos_unique [OF starts_mono [OF inv], of "Suc (length X)" "?s"] below above len
    by simp
  have prev: "\<not> (Suc (length X) > 0 \<and> ?s \<le> end' (h ! (list ! (Suc (length X) - 1))))"
  proof -
    have "h ! (list ! length X) = a"
      using vals_nth [of "length X" list h] len by (simp add: vs)
    then show ?thesis by simp
  qed
  have nxt: "\<not> (Suc (length X) < length list \<and> start (h ! (list ! Suc (length X))) \<le> x)"
  proof
    assume a: "Suc (length X) < length list \<and> start (h ! (list ! Suc (length X))) \<le> x"
    then have "?s < ?f (Suc (length X))"
      using above by simp
    moreover have "(X @ a # Y) ! Suc (length X) \<in> set Y"
      using a len by (auto simp: nth_append)
    then have "x < ?f (Suc (length X))"
      using free a by (simp add: f)
    ultimately show False using a by simp
  qed
  have "returned (addRangeNoOverlap h list ?s x m) =
      Inr (insert_vals (X @ a # Y) (Suc (length X)) ?s x m)"
    using addRangeNoOverlap_returned [OF inv vm se pos prev nxt] by (simp add: vs)
  then show ?thesis
    unfolding insert_vals_after
    by (simp add: touching_def split: list.splits)
qed

text \<open>
  The witness merges \<open>[3600, 7199]\<close> into \<open>[0, 3599]\<close> under the name \<open>focus\<close>, with
  a later entry \<open>[9000, 9999]\<close> that is out of reach.
\<close>

theorem addRangeNoOverlap_adjacent_witness:
  "store_inv [\<lparr>start = 0, end' = 3599, meta = named ''focus''\<rparr>,
              \<lparr>start = 9000, end' = 9999, meta = named ''focus''\<rparr>] [0, 1] \<and>
   valid_meta (named ''focus'') \<and>
   returned (addRangeNoOverlap [\<lparr>start = 0, end' = 3599, meta = named ''focus''\<rparr>,
              \<lparr>start = 9000, end' = 9999, meta = named ''focus''\<rparr>] [0, 1]
              3600 7199 (named ''focus'')) =
     Inr [\<lparr>start = 0, end' = 7199, meta = named ''focus''\<rparr>,
          \<lparr>start = 9000, end' = 9999, meta = named ''focus''\<rparr>]"
proof -
  have inv: "store_inv [\<lparr>start = 0, end' = 3599, meta = named ''focus''\<rparr>,
              \<lparr>start = 9000, end' = 9999, meta = named ''focus''\<rparr>] [0, 1]"
    by code_simp
  have wf: "list_all wf_slot (vals [\<lparr>start = 0, end' = 3599, meta = named ''focus''\<rparr>,
              \<lparr>start = 9000, end' = 9999, meta = named ''focus''\<rparr>] [0, 1])"
    by code_simp
  have vs: "vals [\<lparr>start = 0, end' = 3599, meta = named ''focus''\<rparr>,
              \<lparr>start = 9000, end' = 9999, meta = named ''focus''\<rparr>] [0, 1] =
      [] @ \<lparr>start = 0, end' = 3599, meta = named ''focus''\<rparr> #
      [\<lparr>start = 9000, end' = 9999, meta = named ''focus''\<rparr>]"
    by (simp add: vals_def)
  have vm: "valid_meta (named ''focus'')"
    by code_simp
  show ?thesis
    using inv vm addRangeNoOverlap_adjacent [OF inv wf vs vm, of 7199] by simp
qed

text \<open>
  C3 as it is worded fails where the entry after \<open>a\<close> is contiguous with the new
  range under the same name: with \<open>[0, 9]\<close> and \<open>[20, 29]\<close> both named \<open>f\<close>, adding
  \<open>[10, 19]\<close> named \<open>f\<close> gives the single entry \<open>[0, 29]\<close>, not \<open>[0, 19]\<close> followed
  by \<open>[20, 29]\<close>.
\<close>

theorem addRangeNoOverlap_adjacent_counterexample:
  "store_inv [\<lparr>start = 0, end' = 9, meta = named ''f''\<rparr>,
              \<lparr>start = 20, end' = 29, meta = named ''f''\<rparr>] [0, 1] \<and>
   returned (addRangeNoOverlap [\<lparr>start = 0, end' = 9, meta = named ''f''\<rparr>,
              \<lparr>start = 20, end' = 29, meta = named ''f''\<rparr>] [0, 1] (9 + 1) 19 (named ''f'')) =
     Inr [\<lparr>start = 0, end' = 29, meta = named ''f''\<rparr>] \<and>
   returned (addRangeNoOverlap [\<lparr>start = 0, end' = 9, meta = named ''f''\<rparr>,
              \<lparr>start = 20, end' = 29, meta = named ''f''\<rparr>] [0, 1] (9 + 1) 19 (named ''f'')) \<noteq>
     Inr [\<lparr>start = 0, end' = 19, meta = named ''f''\<rparr>,
          \<lparr>start = 20, end' = 29, meta = named ''f''\<rparr>]"
  by code_simp

subsection \<open>What a call writes\<close>

lemma set_end_other: "r \<noteq> a \<Longrightarrow> set_end h a b ! r = h ! r"
  by (simp add: set_end_def)

lemma mergeLeft_frame:
  assumes "mergeLeft (h, next, pos) = (h', next', pos')" and "pos < length next"
  shows "(\<forall>r. r \<noteq> next ! (pos - 1) \<longrightarrow> h' ! r = h ! r) \<and>
         (h' = h \<and> next' ! pos' = next ! pos \<or> 0 < pos \<and> next' ! pos' = next ! (pos - 1))"
  using assms
  by (auto simp: mergeLeft_def Let_def set_end_other splice_remove_def nth_append
      split: if_splits)

lemma mergeRight_frame:
  assumes "mergeRight (h, next, pos) = (h', next')"
  shows "\<forall>r. r \<noteq> next ! pos \<longrightarrow> h' ! r = h ! r"
  using assms
  by (auto simp: mergeRight_def Let_def set_end_other split: if_splits)

text \<open>
  What a successful call writes to: of the objects that were there before, at most
  the one left of the insertion position, and that one only on a left merge.
\<close>

lemma addRangeNoOverlap_frame:
  assumes inv: "store_inv h list"
    and res: "addRangeNoOverlap h list start0 end0 m = (h', Inr list')"
    and se: "normalizeRange start0 end0 = (s, e)"
    and pos: "pos = insert_pos (\<lambda>i. start (h ! (list ! i))) s 0 (length list)"
    and r: "r < length h"
    and other: "0 < pos \<and> touching (vals h list ! (pos - 1)) \<lparr>start = s, end' = e, meta = m\<rparr>
                  \<longrightarrow> r \<noteq> list ! (pos - 1)"
  shows "h' ! r = h ! r"
proof -
  define h1 where "h1 = h @ [\<lparr>start = s, end' = e, meta = m\<rparr>]"
  define next1 where "next1 = splice_insert pos (length h) list"
  note unf = addRangeNoOverlap_unfold [OF se pos, of m, folded h1_def next1_def]
  from res have mr: "mergeRight (mergeLeft (h1, next1, pos)) = (h', list')"
    unfolding unf by (auto split: if_splits simp: prod_eq_iff)
  have fits: "fits_at (vals h list) pos s e"
    using addRangeNoOverlap_success(1) [OF inv res se pos] .
  then have len: "pos \<le> length list" by (simp add: fits_at_def)
  then have len1: "pos < length next1"
    by (simp add: next1_def splice_insert_def)
  have at_pos: "next1 ! pos = length h"
    using len by (simp add: next1_def splice_insert_def nth_append)
  have before: "0 < pos \<Longrightarrow> next1 ! (pos - 1) = list ! (pos - 1)"
    using len by (simp add: next1_def splice_insert_def nth_append)
  from inv have refs: "list_all (\<lambda>r. r < length h) list" by (simp add: store_inv_def)
  have h1r: "h1 ! r = h ! r" using r by (simp add: h1_def nth_append)
  obtain h2 next2 pos2 where ml: "mergeLeft (h1, next1, pos) = (h2, next2, pos2)"
    by (cases "mergeLeft (h1, next1, pos)")
  note right = mergeRight_frame [OF mr [unfolded ml]]
  show ?thesis
  proof (cases "0 < pos \<and> contiguous_same_name h1 (next1 ! (pos - 1)) (next1 ! pos)")
    case True
    then have res2: "h2 = set_end h1 (next1 ! (pos - 1)) (next1 ! pos)" "pos2 = pos - 1"
      "next2 = splice_remove pos next1"
      using ml by (auto simp: mergeLeft_def Let_def)
    have "next2 ! pos2 = list ! (pos - 1)"
      using True len1 before by (simp add: res2 splice_remove_def nth_append)
    moreover have "touching (vals h list ! (pos - 1)) \<lparr>start = s, end' = e, meta = m\<rparr>"
    proof -
      have idx: "pos - 1 < length list"
        using True len by auto
      then have "list ! (pos - 1) < length h"
        using refs by (simp add: list_all_length)
      then have "h1 ! (list ! (pos - 1)) = vals h list ! (pos - 1)"
        using idx by (simp add: h1_def nth_append vals_nth)
      moreover have "h1 ! length h = \<lparr>start = s, end' = e, meta = m\<rparr>"
        by (simp add: h1_def)
      ultimately show ?thesis
        using True before at_pos
        by (simp add: contiguous_same_name_def touching_def name_of_def)
    qed
    ultimately have "r \<noteq> next2 ! pos2" "r \<noteq> next1 ! (pos - 1)"
      using other True before by simp_all
    then have "h' ! r = h2 ! r" "h2 ! r = h1 ! r"
      using right by (simp_all add: res2(1) set_end_other)
    with h1r show ?thesis by simp
  next
    case False
    then have "h2 = h1" "next2 = next1" "pos2 = pos"
      using ml by (auto simp: mergeLeft_def Let_def split: if_splits)
    then have "r \<noteq> next2 ! pos2"
      using at_pos r by simp
    then have "h' ! r = h2 ! r" using right by simp
    with \<open>h2 = h1\<close> h1r show ?thesis by simp
  qed
qed

text \<open>
  C4. The claim is that a call leaves every entry of the input list as it was. The
  array is copied, but the copy shares its objects with the input, and the left
  merge assigns to \<open>a.end\<close> of such an object. Here the caller's array \<open>[0]\<close> denotes
  \<open>[0, 9]\<close> before the call and \<open>[0, 19]\<close> after it.
\<close>

theorem addRangeNoOverlap_writes_input_entry:
  "vals [\<lparr>start = 0, end' = 9, meta = named ''f''\<rparr>] [0] =
     [\<lparr>start = 0, end' = 9, meta = named ''f''\<rparr>] \<and>
   addRangeNoOverlap [\<lparr>start = 0, end' = 9, meta = named ''f''\<rparr>] [0] 10 19 (named ''f'') =
     ([\<lparr>start = 0, end' = 19, meta = named ''f''\<rparr>,
       \<lparr>start = 10, end' = 19, meta = named ''f''\<rparr>], Inr [0]) \<and>
   vals (fst (addRangeNoOverlap [\<lparr>start = 0, end' = 9, meta = named ''f''\<rparr>] [0] 10 19
           (named ''f''))) [0] =
     [\<lparr>start = 0, end' = 19, meta = named ''f''\<rparr>]"
  by code_simp

text \<open>
  C7. On the empty list, with a \<open>meta\<close> that passes the check, \<open>addRangeNoOverlap\<close>
  succeeds and returns the one-element list holding the normalized range with that
  \<open>meta\<close>. Normalizing orders the two endpoints and clamps each to \<open>[0, 86399]\<close>, so a
  pair with \<open>0 \<le> start \<le> end \<le> 86399\<close> is returned as it was given.
\<close>

theorem addRangeNoOverlap_empty:
  assumes "valid_meta m"
  shows "addRangeNoOverlap h [] start0 end0 m =
           (h @ [\<lparr>start = fst (normalizeRange start0 end0),
                  end' = snd (normalizeRange start0 end0), meta = m\<rparr>], Inr [length h])
         \<and> returned (addRangeNoOverlap h [] start0 end0 m) =
             Inr [\<lparr>start = fst (normalizeRange start0 end0),
                   end' = snd (normalizeRange start0 end0), meta = m\<rparr>]
         \<and> normalizeRange start0 end0 =
             (max 0 (min 86399 (min start0 end0)), max 0 (min 86399 (max start0 end0)))
         \<and> (0 \<le> start0 \<and> start0 \<le> end0 \<and> end0 \<le> 86399 \<longrightarrow>
              normalizeRange start0 end0 = (start0, end0))"
proof -
  obtain s e where se: "normalizeRange start0 end0 = (s, e)"
    by (cases "normalizeRange start0 end0")
  have pos: "0 = insert_pos (\<lambda>i. start (h ! ([] ! i))) s 0 (length ([] :: ref list))"
    by (simp add: insert_pos.simps)
  have "addRangeNoOverlap h [] start0 end0 m =
      (h @ [\<lparr>start = s, end' = e, meta = m\<rparr>], Inr [length h])"
    using addRangeNoOverlap_unfold [OF se pos, of m] assms
    by (simp add: mergeLeft_def mergeRight_def splice_insert_def)
  moreover have "normalizeRange start0 end0 =
      (max 0 (min 86399 (min start0 end0)), max 0 (min 86399 (max start0 end0)))"
    by (simp add: normalizeRange_def min_def max_def)
  moreover have "0 \<le> start0 \<and> start0 \<le> end0 \<and> end0 \<le> 86399 \<longrightarrow>
      normalizeRange start0 end0 = (start0, end0)"
    by (simp add: normalizeRange_def)
  ultimately show ?thesis
    by (simp add: se returned_def)
qed

text \<open>The witness is the first step of the specification's example.\<close>

theorem addRangeNoOverlap_empty_witness:
  "valid_meta (named ''focus'') \<and>
   returned (addRangeNoOverlap [] [] 0 3599 (named ''focus'')) =
     Inr [\<lparr>start = 0, end' = 3599, meta = named ''focus''\<rparr>]"
proof -
  have vm: "valid_meta (named ''focus'')"
    by code_simp
  have nr: "normalizeRange 0 3599 = (0, 3599)"
    by code_simp
  show ?thesis
    using vm addRangeNoOverlap_empty [OF vm, of "[]" 0 3599]
    by (simp add: nr returned_def)
qed

section \<open>Deriving the colour\<close>

lemma ToInt32_sint: "ToInt32 x = sint (word_of_int x :: 32 word)"
  by (simp add: ToInt32_def sint_sbintrunc' signed_take_bit_eq_take_bit_shift take_bit_eq_mod)

lemma js_shl_sint: "js_shl (sint (w :: 32 word)) 5 = sint (push_bit 5 w)"
  by (simp add: js_shl_def ToInt32_sint push_bit_eq_mult)

lemma ToInt32_add_sint: "ToInt32 (sint (a :: 32 word) + sint (b :: 32 word)) = sint (a + b)"
  by (simp add: ToInt32_sint)

lemma ToInt32_uint16: "ToInt32 (uint (c :: 16 word)) = sint (ucast c :: 32 word)"
  by (simp add: ToInt32_sint)

lemma hash_step_sint:
  "hash_step (sint (w :: 32 word)) c = sint ((push_bit 5 w + w) XOR ucast c)"
  by (simp only: hash_step_def js_xor_def js_shl_sint ToInt32_add_sint ToInt32_uint16
      signed_xor_eq [symmetric])

lemma foldl_hash_step_sint:
  "foldl hash_step (sint (w :: 32 word)) name =
     sint (foldl (\<lambda>h c. (push_bit 5 h + h) XOR ucast c) w name)"
  by (induction name arbitrary: w) (simp_all add: hash_step_sint)

lemma name_hash_djb2: "name_hash name = sint (djb2 name)"
proof -
  have "(5381 :: int) = sint (5381 :: 32 word)" by simp
  then show ?thesis
    unfolding name_hash_def djb2_def using foldl_hash_step_sint [of 5381 name] by simp
qed

text \<open>
  C6. The hue of \<open>colorFromName\<close> is \<open>\<bar>h\<bar> mod 360\<close> for the 32-bit rolling hash \<open>h\<close> of
  the code units of the name, read as a signed number. It is the same for all values
  of the two flags, which select saturation, lightness and alpha: running gives
  (5, 30, 0.8), past gives (15, 25, 0.35), upcoming gives (70, 55, 0.7).
\<close>

theorem colorFromName_table:
  "hue (colorFromName name isPast isRunning) = \<bar>sint (djb2 name)\<bar> mod 360
   \<and> colorFromName name isPast True =
       \<lparr>hue = \<bar>sint (djb2 name)\<bar> mod 360, saturation = 5, lightness = 30, alpha = ''0.8''\<rparr>
   \<and> colorFromName name True False =
       \<lparr>hue = \<bar>sint (djb2 name)\<bar> mod 360, saturation = 15, lightness = 25, alpha = ''0.35''\<rparr>
   \<and> colorFromName name False False =
       \<lparr>hue = \<bar>sint (djb2 name)\<bar> mod 360, saturation = 70, lightness = 55, alpha = ''0.7''\<rparr>"
  by (simp add: colorFromName_def name_hash_djb2)

text \<open>An example: the name \<open>focus\<close>, upcoming, has hue 281.\<close>

lemma colorFromName_focus:
  "colorFromName [102, 111, 99, 117, 115] False False =
     \<lparr>hue = 281, saturation = 70, lightness = 55, alpha = ''0.7''\<rparr>"
  by code_simp

section \<open>Loading and saving the store of the day\<close>

lemma map_of_set_prop: "map_of (set_prop k v ps) = (map_of ps)(k \<mapsto> v)"
  by (induction ps) (auto simp: fun_eq_iff)

lemma isSameDate_iff: "isSameDate a b \<longleftrightarrow> a = Some (date_json b)"
  by (cases b) (auto simp: isSameDate_def date_json_def split: option.splits json.splits list.splits)

lemma get_prop_Some_obj: "get_prop v k = Some x \<Longrightarrow> \<exists>fs. v = JObj fs"
  by (cases v) (simp_all add: get_prop_def)

lemma read_fresh:
  "ls ''timeslots'' = None \<or> ls ''timeslots'' = Some [] \<or>
   (\<exists>raw. ls ''timeslots'' = Some raw \<and>
      (parse raw = None \<or>
       (\<exists>v. parse raw = Some v \<and> get_prop v ''date'' \<noteq> Some (date_json (getTodayArray now)))))
   \<Longrightarrow> readStoreForToday parse ls now = makeDefaultTimeslots now"
  by (auto simp: readStoreForToday_def isSameDate_iff Let_def split: option.splits)

lemma read_kept:
  assumes "ls ''timeslots'' = Some raw" "raw \<noteq> []" "parse raw = Some v"
    "get_prop v ''date'' = Some (date_json (getTodayArray now))"
  shows "map_of (readStoreForToday parse ls now) =
     (map_of (own_props v))(''date'' \<mapsto> date_json (getTodayArray now),
        ''timeslots'' \<mapsto> array_or_empty (get_prop v ''timeslots''))"
  using assms
  by (simp add: readStoreForToday_def isSameDate_iff Let_def map_of_set_prop array_or_empty_def)


lemma get_prop_own_props: "get_prop v k = Some x \<Longrightarrow> map_of (own_props v) = get_prop v"
  by (cases v) (simp_all add: get_prop_def own_props_def fun_eq_iff)

text \<open>
  C5. \<open>readStoreForToday\<close> returns the fresh store of today (today's date, no
  timeslots) when the blob is absent or empty, when it cannot be parsed, and when
  its \<open>date\<close> is not the array of today's day, month and year, whatever else the
  blob holds. Otherwise the result has every property of the stored object, except
  that \<open>date\<close> is today's and \<open>timeslots\<close> is the stored value if that is an array
  and the empty array if not.
\<close>

theorem readStoreForToday_cases:
  "(ls ''timeslots'' = None \<longrightarrow> readStoreForToday parse ls now = makeDefaultTimeslots now)
   \<and> (ls ''timeslots'' = Some [] \<longrightarrow> readStoreForToday parse ls now = makeDefaultTimeslots now)
   \<and> (ls ''timeslots'' = Some raw \<and> parse raw = None \<longrightarrow>
        readStoreForToday parse ls now = makeDefaultTimeslots now)
   \<and> (ls ''timeslots'' = Some raw \<and> parse raw = Some v \<and>
        get_prop v ''date'' \<noteq>
          Some (JArr [JNum (getDate now), JNum (getMonth now), JNum (getFullYear now)]) \<longrightarrow>
        readStoreForToday parse ls now = makeDefaultTimeslots now)
   \<and> (ls ''timeslots'' = Some raw \<and> raw \<noteq> [] \<and> parse raw = Some v \<and>
        get_prop v ''date'' =
          Some (JArr [JNum (getDate now), JNum (getMonth now), JNum (getFullYear now)]) \<longrightarrow>
        map_of (readStoreForToday parse ls now) =
          (get_prop v)
            (''date'' \<mapsto> JArr [JNum (getDate now), JNum (getMonth now), JNum (getFullYear now)],
             ''timeslots'' \<mapsto> array_or_empty (get_prop v ''timeslots'')))
   \<and> makeDefaultTimeslots now =
         [(''date'', JArr [JNum (getDate now), JNum (getMonth now), JNum (getFullYear now)]),
          (''timeslots'', JArr [])]"
proof -
  have today: "date_json (getTodayArray now) =
      JArr [JNum (getDate now), JNum (getMonth now), JNum (getFullYear now)]"
    by (simp add: date_json_def getTodayArray_def)
  have "ls ''timeslots'' = None \<longrightarrow> readStoreForToday parse ls now = makeDefaultTimeslots now"
    using read_fresh [of ls parse now] by simp
  moreover have "ls ''timeslots'' = Some [] \<longrightarrow>
      readStoreForToday parse ls now = makeDefaultTimeslots now"
    using read_fresh [of ls parse now] by simp
  moreover have "ls ''timeslots'' = Some raw \<and> parse raw = None \<longrightarrow>
      readStoreForToday parse ls now = makeDefaultTimeslots now"
    using read_fresh [of ls parse now] by blast
  moreover have "ls ''timeslots'' = Some raw \<and> parse raw = Some v \<and>
      get_prop v ''date'' \<noteq> Some (date_json (getTodayArray now)) \<longrightarrow>
      readStoreForToday parse ls now = makeDefaultTimeslots now"
    using read_fresh [of ls parse now] by blast
  moreover have "ls ''timeslots'' = Some raw \<and> raw \<noteq> [] \<and> parse raw = Some v \<and>
      get_prop v ''date'' = Some (date_json (getTodayArray now)) \<longrightarrow>
      map_of (readStoreForToday parse ls now) =
        (get_prop v)(''date'' \<mapsto> date_json (getTodayArray now),
           ''timeslots'' \<mapsto> array_or_empty (get_prop v ''timeslots''))"
    using read_kept [of ls raw parse v now] get_prop_own_props [of v "''date''"] by auto
  moreover have "makeDefaultTimeslots now =
      [(''date'', date_json (getTodayArray now)), (''timeslots'', JArr [])]"
    by (simp add: makeDefaultTimeslots_def)
  ultimately show ?thesis
    unfolding today by blast
qed

text \<open>
  The witness, on 2 November 2026 (months count from 0): no blob; a blob that does
  not parse; a blob dated the day before; a blob of the day whose \<open>timeslots\<close> is not
  an array and which carries one more property.
\<close>

theorem readStoreForToday_cases_witness:
  "readStoreForToday (\<lambda>raw. None) Map.empty \<lparr>getDate = 2, getMonth = 10, getFullYear = 2026\<rparr> =
     makeDefaultTimeslots \<lparr>getDate = 2, getMonth = 10, getFullYear = 2026\<rparr>
   \<and> readStoreForToday (\<lambda>raw. None) [''timeslots'' \<mapsto> ''{'']
        \<lparr>getDate = 2, getMonth = 10, getFullYear = 2026\<rparr> =
     makeDefaultTimeslots \<lparr>getDate = 2, getMonth = 10, getFullYear = 2026\<rparr>
   \<and> readStoreForToday
        (\<lambda>raw. Some (JObj [(''date'', JArr [JNum 1, JNum 10, JNum 2026]),
                           (''timeslots'', JArr [JNum 7])]))
        [''timeslots'' \<mapsto> ''blob''] \<lparr>getDate = 2, getMonth = 10, getFullYear = 2026\<rparr> =
     makeDefaultTimeslots \<lparr>getDate = 2, getMonth = 10, getFullYear = 2026\<rparr>
   \<and> map_of (readStoreForToday
        (\<lambda>raw. Some (JObj [(''date'', JArr [JNum 2, JNum 10, JNum 2026]),
                           (''timeslots'', JStr ''none''), (''note'', JStr ''kept'')]))
        [''timeslots'' \<mapsto> ''blob''] \<lparr>getDate = 2, getMonth = 10, getFullYear = 2026\<rparr>) =
     [''note'' \<mapsto> JStr ''kept'', ''date'' \<mapsto> JArr [JNum 2, JNum 10, JNum 2026],
      ''timeslots'' \<mapsto> JArr []]"
proof -
  let ?now = "\<lparr>getDate = 2, getMonth = 10, getFullYear = 2026\<rparr>"
  let ?stale = "JObj [(''date'', JArr [JNum 1, JNum 10, JNum 2026]), (''timeslots'', JArr [JNum 7])]"
  let ?good = "JObj [(''date'', JArr [JNum 2, JNum 10, JNum 2026]),
                     (''timeslots'', JStr ''none''), (''note'', JStr ''kept'')]"
  have "readStoreForToday (\<lambda>raw. None) Map.empty ?now = makeDefaultTimeslots ?now"
    using readStoreForToday_cases [of Map.empty "\<lambda>raw. None" ?now] by simp
  moreover have "readStoreForToday (\<lambda>raw. None) [''timeslots'' \<mapsto> ''{''] ?now =
      makeDefaultTimeslots ?now"
    using readStoreForToday_cases [of "[''timeslots'' \<mapsto> ''{'']" "\<lambda>raw. None" ?now "''{''"]
    by simp
  moreover have "readStoreForToday (\<lambda>raw. Some ?stale) [''timeslots'' \<mapsto> ''blob''] ?now =
      makeDefaultTimeslots ?now"
    using readStoreForToday_cases [of "[''timeslots'' \<mapsto> ''blob'']" "\<lambda>raw. Some ?stale" ?now
        "''blob''" ?stale]
    by (simp add: get_prop_def)
  moreover have "map_of (readStoreForToday (\<lambda>raw. Some ?good) [''timeslots'' \<mapsto> ''blob''] ?now) =
      [''note'' \<mapsto> JStr ''kept'', ''date'' \<mapsto> JArr [JNum 2, JNum 10, JNum 2026],
       ''timeslots'' \<mapsto> JArr []]"
    using readStoreForToday_cases [of "[''timeslots'' \<mapsto> ''blob'']" "\<lambda>raw. Some ?good" ?now
        "''blob''" ?good]
    by (auto simp: get_prop_def array_or_empty_def fun_eq_iff)
  ultimately show ?thesis by blast
qed

text \<open>
  C8. A store that carries today's date and an array of timeslots is read back by
  \<open>readStoreForToday\<close> after \<open>writeStore\<close> with the same timeslots, and indeed with
  every property as it was saved. \<open>JSON.stringify\<close> and \<open>JSON.parse\<close> are taken to
  give the store back: the text written is not empty and parses to the object saved.
\<close>

theorem writeStore_then_readStoreForToday:
  assumes "parse (stringify (JObj store)) = Some (JObj store)"
    and "stringify (JObj store) \<noteq> []"
    and "map_of store ''date'' =
           Some (JArr [JNum (getDate now), JNum (getMonth now), JNum (getFullYear now)])"
    and "map_of store ''timeslots'' = Some (JArr ts)"
  shows "map_of (readStoreForToday parse (localStorage (writeStore stringify store st)) now)
             ''timeslots'' = Some (JArr ts)
         \<and> map_of (readStoreForToday parse (localStorage (writeStore stringify store st)) now) =
             map_of store"
proof -
  let ?ls = "localStorage (writeStore stringify store st)"
  have today: "date_json (getTodayArray now) =
      JArr [JNum (getDate now), JNum (getMonth now), JNum (getFullYear now)]"
    by (simp add: date_json_def getTodayArray_def)
  have raw: "?ls ''timeslots'' = Some (stringify (JObj store))"
    by (simp add: writeStore_def Let_def)
  have d: "get_prop (JObj store) ''date'' = Some (date_json (getTodayArray now))"
    using assms(3) by (simp add: get_prop_def today)
  have "map_of (readStoreForToday parse ?ls now) =
      (map_of store)(''date'' \<mapsto> date_json (getTodayArray now),
         ''timeslots'' \<mapsto> array_or_empty (get_prop (JObj store) ''timeslots''))"
    using read_kept [of ?ls "stringify (JObj store)" parse "JObj store" now] raw assms(1,2) d
    by (simp add: own_props_def)
  also have "\<dots> = map_of store"
    using assms(3,4) by (auto simp: fun_eq_iff today get_prop_def array_or_empty_def)
  finally show ?thesis
    using assms(4) by simp
qed

text \<open>The witness saves and reloads a store with one entry on 2 November 2026.\<close>

theorem writeStore_then_readStoreForToday_witness:
  "map_of (readStoreForToday
      (\<lambda>raw. Some (JObj [(''date'', JArr [JNum 2, JNum 10, JNum 2026]),
                         (''timeslots'', JArr [JNum 7])]))
      (localStorage (writeStore (\<lambda>v. ''blob'')
          [(''date'', JArr [JNum 2, JNum 10, JNum 2026]), (''timeslots'', JArr [JNum 7])]
          \<lparr>localStorage = Map.empty, timeslotsDebug = ''{}'', timeslots = JArr []\<rparr>))
      \<lparr>getDate = 2, getMonth = 10, getFullYear = 2026\<rparr>) ''timeslots'' = Some (JArr [JNum 7])"
  using writeStore_then_readStoreForToday
    [of "\<lambda>raw. Some (JObj [(''date'', JArr [JNum 2, JNum 10, JNum 2026]),
                            (''timeslots'', JArr [JNum 7])])"
        "\<lambda>v. ''blob''"
        "[(''date'', JArr [JNum 2, JNum 10, JNum 2026]), (''timeslots'', JArr [JNum 7])]"
        "\<lparr>getDate = 2, getMonth = 10, getFullYear = 2026\<rparr>" "[JNum 7]"
        "\<lparr>localStorage = Map.empty, timeslotsDebug = ''{}'', timeslots = JArr []\<rparr>"]
  by simp

end
